theory Spec2Isabelle
  imports Main "HOL-Library.AList" "HOL-Library.Sublist" "HOL-Library.Multiset"
begin

section \<open>The path tree of path_tree.go\<close>

text \<open>
  Go strings are byte sequences; \<open>string\<close> is a list of 8-bit characters, so \<open>length\<close>,
  \<open>take\<close> and \<open>drop\<close> are Go's \<open>len\<close>, \<open>p[:i]\<close> and \<open>p[i:]\<close> inside the
  bounds. A slice expression outside the bounds panics in Go; the one slice expression
  whose bound is computed by the program (\<open>origPath[:curPathLen]\<close> in \<open>set\<close>) carries its
  bounds check in the model.
\<close>

datatype error = SliceBoundsOutOfRange

text \<open>
  \<open>pathTreeNode[T]\<close>: \<open>name\<close>, \<open>path\<close>, the optional \<open>value\<close> (a nil pointer is
  \<open>None\<close>) and the \<open>children\<close> map. The children are an association list: its keys are
  looked up with \<open>map_of\<close> and written with \<open>AList.update\<close>; the order of the list
  decides nothing, the order in which Go iterates over the map is an input of
  \<open>listByPath\<close> (see \<open>pick\<close>). A nil map and an empty map are both
  \<open>[]\<close>. Every node is owned by its parent, so a pointer to a child is the child itself and
  a write through the pointer becomes an update of the parent's entry.
\<close>

datatype 'a pathTreeNode =
  Node (name: string) (path: string) (nvalue: "'a option")
       (children: "(string \<times> 'a pathTreeNode) list")

record 'a pathTree =
  root :: "'a pathTreeNode"
  countHint :: int

text \<open>
  \<open>countHint\<close> is a Go \<open>int\<close> that \<open>Set\<close> increments; it is read only as the capacity
  hint of the result map of \<open>ListByPath\<close> and decides no result, so it is an unbounded
  integer here. The zero value of \<open>pathTree\<close>:
\<close>

definition zeroNode :: "'a pathTreeNode" where
  "zeroNode = Node [] [] None []"

definition zeroTree :: "'a pathTree" where
  "zeroTree = \<lparr> root = zeroNode, countHint = 0 \<rparr>"

subsection \<open>pathTakeFirst\<close>

text \<open>
  \<open>strings.IndexByte\<close>: the index of the first occurrence of the byte, if any (Go's
  \<open>-1\<close> is \<open>None\<close>). The index is below the length (\<open>indexByte_less\<close>), so the two
  slices of \<open>pathTakeFirst\<close> are inside the bounds.
\<close>

fun indexByte :: "string \<Rightarrow> char \<Rightarrow> nat option" where
  "indexByte [] c = None"
| "indexByte (x # xs) c =
     (if x = c then Some 0
      else (case indexByte xs c of None \<Rightarrow> None | Some i \<Rightarrow> Some (Suc i)))"

definition pathTakeFirst :: "string \<Rightarrow> string \<times> string" where
  "pathTakeFirst p =
     (case indexByte p (CHR ''/'') of
        Some idx \<Rightarrow> (take idx p, drop (idx + 1) p)
      | None \<Rightarrow> (p, []))"

lemma indexByte_less: "indexByte p c = Some i \<Longrightarrow> i < length p"
  by (induction p arbitrary: i) (auto split: if_splits option.splits)

lemma pathTakeFirst_shrinks:
  "p \<noteq> [] \<Longrightarrow> pathTakeFirst p = (h, t) \<Longrightarrow> length t < length p"
  by (auto simp: pathTakeFirst_def split: option.splits dest: indexByte_less)

subsection \<open>set, lookup, get\<close>

text \<open>
  The loop of \<open>set\<close>, with its variables \<open>origPath\<close>, \<open>curPathLen\<close>, \<open>path\<close> and the
  node \<open>n\<close> it stands on. The result is the node \<open>n\<close> after the writes below it.
\<close>

function set_loop ::
  "string \<Rightarrow> nat \<Rightarrow> string \<Rightarrow> 'a \<Rightarrow> 'a pathTreeNode \<Rightarrow> error + 'a pathTreeNode" where
  "set_loop origPath curPathLen p v n =
     (if length p > 0 then
        (case pathTakeFirst p of (head, tail) \<Rightarrow>
           (let cur1 = (if curPathLen > 0 then curPathLen + 1 else curPathLen);
                cur2 = cur1 + length head
            in case (case map_of (children n) head of
                       Some ch \<Rightarrow> Inr ch
                     | None \<Rightarrow>
                         (if cur2 \<le> length origPath
                          then Inr (Node head (take cur2 origPath) None [])
                          else Inl SliceBoundsOutOfRange)) of
                 Inl e \<Rightarrow> Inl e
               | Inr ch \<Rightarrow>
                   (case set_loop origPath cur2 tail v ch of
                      Inl e \<Rightarrow> Inl e
                    | Inr ch' \<Rightarrow>
                        Inr (Node (name n) (path n) (nvalue n)
                               (AList.update head ch' (children n))))))
      else Inr (Node (name n) (path n) (Some v) (children n)))"
  by pat_completeness auto
termination
  by (relation "measure (\<lambda>(origPath, curPathLen, p, v, n). length p)")
     (auto dest: pathTakeFirst_shrinks [OF _ sym])

definition set_node :: "string \<Rightarrow> 'a \<Rightarrow> 'a pathTreeNode \<Rightarrow> error + 'a pathTreeNode" where
  "set_node p v n = set_loop p 0 p v n"

definition Set :: "string \<Rightarrow> 'a \<Rightarrow> 'a pathTree \<Rightarrow> error + 'a pathTree" where
  "Set p v t =
     (case set_node p v (root t) of
        Inl e \<Rightarrow> Inl e
      | Inr r \<Rightarrow> Inr \<lparr> root = r, countHint = countHint t + 1 \<rparr>)"

text \<open>
  The loop of \<open>lookup\<close>: \<open>n\<close> is the node pointer (nil is \<open>None\<close>), \<open>lst\<close> the last node
  seen with a value.
\<close>

function lookup_loop ::
  "'a pathTreeNode option \<Rightarrow> string \<Rightarrow> 'a pathTreeNode option \<Rightarrow> 'a pathTreeNode option" where
  "lookup_loop n p lst =
     (case n of
        None \<Rightarrow> lst
      | Some nd \<Rightarrow>
          (let lst' = (if nvalue nd \<noteq> None then Some nd else lst)
           in if length p = 0 then lst'
              else (case pathTakeFirst p of (head, tail) \<Rightarrow>
                      lookup_loop (map_of (children nd) head) tail lst')))"
  by pat_completeness auto
termination
  by (relation "measure (\<lambda>(n, p, lst). length p)")
     (auto dest: pathTakeFirst_shrinks [OF _ sym])

definition lookup :: "'a pathTreeNode \<Rightarrow> string \<Rightarrow> 'a pathTreeNode option" where
  "lookup n p = lookup_loop (Some n) p None"

text \<open>
  \<open>Lookup\<close> returns \<open>(found, v, ok)\<close>; \<open>ok = false\<close> (with the zero values beside it) is
  \<open>None\<close>, and \<open>(found, v, true)\<close> is \<open>Some (found, v)\<close>.
\<close>

definition Lookup :: "'a pathTree \<Rightarrow> string \<Rightarrow> (string \<times> 'a) option" where
  "Lookup t p =
     (case lookup (root t) p of
        None \<Rightarrow> None
      | Some n \<Rightarrow> (case nvalue n of None \<Rightarrow> None | Some v \<Rightarrow> Some (path n, v)))"

function get_loop :: "'a pathTreeNode option \<Rightarrow> string \<Rightarrow> 'a pathTreeNode option" where
  "get_loop n p =
     (case n of
        None \<Rightarrow> None
      | Some nd \<Rightarrow>
          (if length p > 0
           then (case pathTakeFirst p of (head, tail) \<Rightarrow>
                   get_loop (map_of (children nd) head) tail)
           else Some nd))"
  by pat_completeness auto
termination
  by (relation "measure (\<lambda>(n, p). length p)")
     (auto dest: pathTakeFirst_shrinks [OF _ sym])

definition get :: "'a pathTreeNode \<Rightarrow> string \<Rightarrow> 'a pathTreeNode option" where
  "get n p = get_loop (Some n) p"

subsection \<open>listByPath and ListByPath\<close>

text \<open>All nodes of the subtree rooted at a node, the node itself first.\<close>

fun nodes_of :: "'a pathTreeNode \<Rightarrow> 'a pathTreeNode list" where
  "nodes_of (Node nm pth v chs) =
     Node nm pth v chs # concat (map (\<lambda>kc. nodes_of (snd kc)) chs)"

lemma nodes_of_eq: "nodes_of n = n # concat (map (\<lambda>kc. nodes_of (snd kc)) (children n))"
  by (cases n) simp

definition stack_nodes :: "'a pathTreeNode list \<Rightarrow> nat" where
  "stack_nodes next = sum_list (map (\<lambda>n. length (nodes_of n)) next)"

text \<open>
  \<open>for _, ch := range n.children\<close>: Go does not specify the order of a range over a map
  and varies it from one range statement to the next. The order is an input of the
  model: \<open>pick ks xs\<close> lists \<open>xs\<close> in the order that the numbers \<open>ks\<close> choose (each
  number takes one of the entries that are left; the entries left when the numbers run
  out follow in the order of the list). Every \<open>pick ks xs\<close> is a permutation of \<open>xs\<close>
  (\<open>mset_pick\<close>) and every permutation of \<open>xs\<close> is \<open>pick ks xs\<close> for some \<open>ks\<close>
  (\<open>pick_any_order\<close>), so the orders of the model are exactly the orders Go may take.
\<close>

fun pick :: "nat list \<Rightarrow> 'b list \<Rightarrow> 'b list" where
  "pick [] xs = xs"
| "pick (k # ks) xs =
     (if xs = [] then []
      else xs ! (k mod length xs) #
           pick ks (take (k mod length xs) xs @ drop (Suc (k mod length xs)) xs))"

lemma pick_Nil [simp]: "pick ks [] = []"
  by (cases ks) simp_all

lemma mset_pick: "mset (pick ks xs) = mset xs"
proof (induction ks arbitrary: xs)
  case Nil
  show ?case by simp
next
  case (Cons k ks)
  show ?case
  proof (cases "xs = []")
    case True
    then show ?thesis by simp
  next
    case False
    let ?i = "k mod length xs"
    from False have i: "?i < length xs" by simp
    have "mset (pick (k # ks) xs) = mset (take ?i xs @ xs ! ?i # drop (Suc ?i) xs)"
      using False by (simp add: Cons.IH)
    also have "take ?i xs @ xs ! ?i # drop (Suc ?i) xs = xs"
      using i by (rule id_take_nth_drop [symmetric])
    finally show ?thesis .
  qed
qed

lemma pick_any_order: "mset ys = mset xs \<Longrightarrow> \<exists>ks. pick ks xs = ys"
proof (induction ys arbitrary: xs)
  case Nil
  then have "pick [] xs = []" by simp
  then show ?case by blast
next
  case (Cons y ys)
  from Cons.prems have "y \<in> set xs" by (metis list.set_intros(1) set_mset_mset)
  then obtain i where i: "i < length xs" "xs ! i = y" by (auto simp: in_set_conv_nth)
  let ?rest = "take i xs @ drop (Suc i) xs"
  have "mset xs = mset (take i xs @ xs ! i # drop (Suc i) xs)"
    using id_take_nth_drop [OF i(1)] by simp
  with Cons.prems i(2) have "mset ys = mset ?rest" by simp
  from Cons.IH [OF this] obtain ks where ks: "pick ks ?rest = ys" by blast
  from i have "pick (i # ks) xs = y # ys" by (auto simp: ks)
  then show ?case by blast
qed

lemma set_pick: "set (pick ks xs) = set xs"
  using mset_pick [of ks xs] by (metis set_mset_mset)

lemma sum_list_pick:
  fixes f :: "'b \<Rightarrow> nat"
  shows "sum_list (map f (pick ks xs)) = sum_list (map f xs)"
proof -
  have "mset (map f (pick ks xs)) = mset (map f xs)" by (simp add: mset_pick)
  then show ?thesis by (metis sum_mset_sum_list)
qed

lemma stack_nodes_pop:
  "next \<noteq> [] \<Longrightarrow>
   stack_nodes (butlast next @ map snd (pick ks (children (last next)))) < stack_nodes next"
proof -
  assume ne: "next \<noteq> []"
  then obtain xs n where nx: "next = xs @ [n]" by (metis append_butlast_last_id)
  have "length (nodes_of n) =
        Suc (sum_list (map (\<lambda>kc. length (nodes_of (snd kc))) (children n)))"
    by (subst nodes_of_eq) (simp add: length_concat comp_def)
  also have "sum_list (map (\<lambda>kc. length (nodes_of (snd kc))) (children n)) =
             sum_list (map (\<lambda>kc. length (nodes_of (snd kc))) (pick ks (children n)))"
    by (rule sum_list_pick [symmetric])
  finally show ?thesis by (simp add: nx stack_nodes_def comp_def)
qed

text \<open>
  The loop of \<open>listByPath\<close>: \<open>next\<close> is the slice used as a stack (its top is the last
  element), \<open>items\<close> the map being filled. \<open>sched\<close> holds the orders of the range
  statements that the call executes, one list of numbers for each iteration, in turn.
\<close>

function listByPath_loop ::
  "nat list list \<Rightarrow> 'a pathTreeNode list \<Rightarrow> (string \<rightharpoonup> 'a) \<Rightarrow> (string \<rightharpoonup> 'a)" where
  "listByPath_loop sched next items =
     (if length next > 0 then
        (let n = last next;
             next1 = butlast next;
             items1 = (case nvalue n of Some v \<Rightarrow> items(path n \<mapsto> v) | None \<Rightarrow> items);
             next2 = next1 @
               map snd (pick (case sched of [] \<Rightarrow> [] | ks # rest \<Rightarrow> ks) (children n))
         in listByPath_loop (tl sched) next2 items1)
      else items)"
  by pat_completeness auto
termination
  by (relation "measure (\<lambda>(sched, next, items). stack_nodes next)")
     (auto intro: stack_nodes_pop)

definition listByPath ::
  "nat list list \<Rightarrow> 'a pathTreeNode \<Rightarrow> (string \<rightharpoonup> 'a) \<Rightarrow> (string \<rightharpoonup> 'a)" where
  "listByPath sched n items = listByPath_loop sched [n] items"

text \<open>
  \<open>ListByPath\<close> returns a nil map when there is no node at the path; a nil map reads as
  the empty map. \<open>countHint\<close> is only the capacity hint of \<open>make\<close>. The first argument
  is the order of the map iterations of this call; two calls take two of them.
\<close>

definition ListByPath :: "nat list list \<Rightarrow> 'a pathTree \<Rightarrow> string \<Rightarrow> (string \<rightharpoonup> 'a)" where
  "ListByPath sched t p =
     (case (if p \<noteq> [] then get (root t) p else Some (root t)) of
        None \<Rightarrow> Map.empty
      | Some n \<Rightarrow> listByPath sched n Map.empty)"

subsection \<open>Trees built by a sequence of Set calls\<close>

text \<open>
  A finite sequence of \<open>Set\<close> calls on a tree, as \<open>CreateHandler\<close> makes on the zero
  value; a panic ends the run.
\<close>

fun build_from :: "'a pathTree \<Rightarrow> (string \<times> 'a) list \<Rightarrow> error + 'a pathTree" where
  "build_from t [] = Inr t"
| "build_from t ((p, v) # ops) =
     (case Set p v t of Inl e \<Rightarrow> Inl e | Inr t' \<Rightarrow> build_from t' ops)"

definition build :: "(string \<times> 'a) list \<Rightarrow> error + 'a pathTree" where
  "build ops = build_from zeroTree ops"

text \<open>One query on the tree that a sequence of \<open>Set\<close> calls builds.\<close>

definition Lookup_after :: "(string \<times> 'a) list \<Rightarrow> string \<Rightarrow> error + (string \<times> 'a) option" where
  "Lookup_after ops p = (case build ops of Inl e \<Rightarrow> Inl e | Inr t \<Rightarrow> Inr (Lookup t p))"

definition get_after :: "(string \<times> 'a) list \<Rightarrow> string \<Rightarrow> error + 'a pathTreeNode option" where
  "get_after ops p = (case build ops of Inl e \<Rightarrow> Inl e | Inr t \<Rightarrow> Inr (get (root t) p))"

definition ListByPath_after ::
  "nat list list \<Rightarrow> (string \<times> 'a) list \<Rightarrow> string \<Rightarrow> string \<Rightarrow> error + 'a option" where
  "ListByPath_after sched ops p k =
     (case build ops of Inl e \<Rightarrow> Inl e | Inr t \<Rightarrow> Inr (ListByPath sched t p k))"

section \<open>The loops, component by component\<close>

text \<open>
  The equations of the loops are unconditional; they are unfolded by hand
  (\<open>set_loop_step\<close> and the like), not by the simplifier.
\<close>

declare set_loop.simps [simp del] lookup_loop.simps [simp del] get_loop.simps [simp del]
  listByPath_loop.simps [simp del]

text \<open>
  The components that the loops of \<open>set\<close>, \<open>lookup\<close> and \<open>get\<close> consume from a path:
  while the rest is not empty, \<open>pathTakeFirst\<close> takes one off.
\<close>

function comps :: "string \<Rightarrow> string list" where
  "comps p = (if length p > 0 then (case pathTakeFirst p of (head, tail) \<Rightarrow> head # comps tail) else [])"
  by pat_completeness auto
termination
  by (relation "measure length") (auto dest: pathTakeFirst_shrinks [OF _ sym])

declare comps.simps [simp del]

text \<open>
  The three loops as recursions over the list of components; \<open>lookup_loop_cs\<close>,
  \<open>get_loop_cs\<close> and \<open>set_loop_cs\<close> below show that the loops compute them.
  \<open>get_cs n cs\<close> is the node exactly at the components \<open>cs\<close> below \<open>n\<close>.
\<close>

fun lookup_cs :: "'a pathTreeNode \<Rightarrow> string list \<Rightarrow> 'a pathTreeNode option \<Rightarrow> 'a pathTreeNode option" where
  "lookup_cs n [] lst = (if nvalue n \<noteq> None then Some n else lst)"
| "lookup_cs n (c # cs) lst =
     (case map_of (children n) c of
        None \<Rightarrow> (if nvalue n \<noteq> None then Some n else lst)
      | Some ch \<Rightarrow> lookup_cs ch cs (if nvalue n \<noteq> None then Some n else lst))"

fun get_cs :: "'a pathTreeNode \<Rightarrow> string list \<Rightarrow> 'a pathTreeNode option" where
  "get_cs n [] = Some n"
| "get_cs n (c # cs) = (case map_of (children n) c of None \<Rightarrow> None | Some ch \<Rightarrow> get_cs ch cs)"

text \<open>\<open>curPathLen\<close> after one more component.\<close>

definition step_len :: "nat \<Rightarrow> string \<Rightarrow> nat" where
  "step_len cur c = (if cur > 0 then cur + 1 else cur) + length c"

fun set_cs :: "string \<Rightarrow> nat \<Rightarrow> string list \<Rightarrow> 'a \<Rightarrow> 'a pathTreeNode \<Rightarrow> 'a pathTreeNode" where
  "set_cs orig cur [] v n = Node (name n) (path n) (Some v) (children n)"
| "set_cs orig cur (c # cs) v n =
     Node (name n) (path n) (nvalue n)
       (AList.update c
          (set_cs orig (step_len cur c) cs v
             (case map_of (children n) c of
                Some ch \<Rightarrow> ch
              | None \<Rightarrow> Node c (take (step_len cur c) orig) None []))
          (children n))"

text \<open>The explicit value at a component list: none when there is no node or no value.\<close>

definition value_at :: "'a pathTreeNode \<Rightarrow> string list \<Rightarrow> 'a option" where
  "value_at n ds = (case get_cs n ds of None \<Rightarrow> None | Some m \<Rightarrow> nvalue m)"

text \<open>What \<open>Lookup\<close> makes of the node that \<open>lookup\<close> returns: matched path and value.\<close>

fun lres :: "'a pathTreeNode \<Rightarrow> string list \<Rightarrow> (string \<times> 'a) option \<Rightarrow> (string \<times> 'a) option" where
  "lres n [] b = (case nvalue n of Some v \<Rightarrow> Some (path n, v) | None \<Rightarrow> b)"
| "lres n (c # cs) b =
     (case map_of (children n) c of
        None \<Rightarrow> (case nvalue n of Some v \<Rightarrow> Some (path n, v) | None \<Rightarrow> b)
      | Some ch \<Rightarrow> lres ch cs (case nvalue n of Some v \<Rightarrow> Some (path n, v) | None \<Rightarrow> b))"

definition res_of :: "'a pathTreeNode option \<Rightarrow> (string \<times> 'a) option" where
  "res_of r = (case r of None \<Rightarrow> None
     | Some n \<Rightarrow> (case nvalue n of None \<Rightarrow> None | Some v \<Rightarrow> Some (path n, v)))"

text \<open>
  \<open>join\<close> puts a separator between components. \<open>adv cur cs\<close> is \<open>curPathLen\<close> after the
  components \<open>cs\<close>, and \<open>npath ds\<close> is the \<open>path\<close> field that \<open>set\<close> gives the node at
  the components \<open>ds\<close>, whichever call creates it.
\<close>

fun join :: "string list \<Rightarrow> string" where
  "join [] = []"
| "join [c] = c"
| "join (c # d # cs) = c @ CHR ''/'' # join (d # cs)"

fun adv :: "nat \<Rightarrow> string list \<Rightarrow> nat" where
  "adv cur [] = cur"
| "adv cur (c # cs) = adv (step_len cur c) cs"

definition npath :: "string list \<Rightarrow> string" where
  "npath ds = take (adv 0 ds) (join ds)"

text \<open>Every node below \<open>n\<close>, itself at \<open>ds0\<close>, has the \<open>path\<close> field \<open>npath\<close> gives.\<close>

definition pinv :: "'a pathTreeNode \<Rightarrow> string list \<Rightarrow> bool" where
  "pinv n ds0 \<longleftrightarrow> (\<forall>ds m. get_cs n ds = Some m \<longrightarrow> path m = npath (ds0 @ ds))"

text \<open>
  The walk of \<open>Lookup\<close> in the words of its contract: the nodes visited from a node
  along the components, until a component has no child; each visited node with a value
  is recorded as the best match, over the one recorded before.
\<close>

fun walk :: "'a pathTreeNode \<Rightarrow> string list \<Rightarrow> 'a pathTreeNode list" where
  "walk n [] = [n]"
| "walk n (c # cs) = n # (case map_of (children n) c of None \<Rightarrow> [] | Some ch \<Rightarrow> walk ch cs)"

definition record_best :: "'a pathTreeNode option \<Rightarrow> 'a pathTreeNode \<Rightarrow> 'a pathTreeNode option" where
  "record_best best m = (if nvalue m \<noteq> None then Some m else best)"

definition best_match :: "'a pathTreeNode list \<Rightarrow> 'a pathTreeNode option" where
  "best_match ns = foldl record_best None ns"

text \<open>The shape of a tree: its nodes with their names, paths and children, values erased.\<close>

fun shape :: "'a pathTreeNode \<Rightarrow> unit pathTreeNode" where
  "shape (Node nm pth v chs) = Node nm pth None (map (\<lambda>kc. (fst kc, shape (snd kc))) chs)"

text \<open>
  Splitting a path at every separator, keeping empty components, as \<open>strings.Split\<close>
  does: the delimiter reading of a path that the contract of \<open>Set\<close> describes.
\<close>

fun split_sep :: "string \<Rightarrow> string list" where
  "split_sep [] = [[]]"
| "split_sep (c # cs) =
     (if c = CHR ''/'' then [] # split_sep cs
      else (c # hd (split_sep cs)) # tl (split_sep cs))"

text \<open>Every node below \<open>n\<close> is named after the last component that leads to it.\<close>

definition ninv :: "'a pathTreeNode \<Rightarrow> bool" where
  "ninv n \<longleftrightarrow> (\<forall>ds m. ds \<noteq> [] \<longrightarrow> get_cs n ds = Some m \<longrightarrow> name m = last ds)"

text \<open>
  A path with no separator at its start or end (the paths that the tests of the
  repository draw are of this kind), and the flat map from key to value that a sequence
  of \<open>Set\<close> calls stands for, the last value for each key.
\<close>

definition clean :: "string \<Rightarrow> bool" where
  "clean p \<longleftrightarrow> p = [] \<or> (hd p \<noteq> CHR ''/'' \<and> last p \<noteq> CHR ''/'')"

definition items_from :: "(string \<rightharpoonup> 'a) \<Rightarrow> (string \<times> 'a) list \<Rightarrow> (string \<rightharpoonup> 'a)" where
  "items_from m ops = foldl (\<lambda>m kv. m(fst kv \<mapsto> snd kv)) m ops"

definition items_of :: "(string \<times> 'a) list \<Rightarrow> (string \<rightharpoonup> 'a)" where
  "items_of ops = items_from Map.empty ops"

text \<open>
  \<open>q\<close> takes its value from the node of \<open>p\<close> once that node has one: \<open>q\<close> is at or
  below \<open>p\<close>, and no node strictly below the node of \<open>p\<close> on the way to \<open>q\<close> has a
  value in the tree \<open>t\<close>.
\<close>

definition inherits :: "'a pathTree \<Rightarrow> string \<Rightarrow> string \<Rightarrow> bool" where
  "inherits t p q \<longleftrightarrow>
     prefix (comps p) (comps q) \<and>
     list_all (\<lambda>k. value_at (root t) (take k (comps q)) = None)
       [Suc (length (comps p)) ..< Suc (length (comps q))]"


section \<open>Properties of the loops\<close>

lemma comps_Nil [simp]: "comps [] = []"
  by (simp add: comps.simps)

lemma comps_step: "p \<noteq> [] \<Longrightarrow> pathTakeFirst p = (h, t) \<Longrightarrow> comps p = h # comps t"
  by (subst comps.simps) simp

lemma lookup_loop_None [simp]: "lookup_loop None p lst = lst"
  by (subst lookup_loop.simps) simp

lemma get_loop_None [simp]: "get_loop None p = None"
  by (subst get_loop.simps) simp

lemma lookup_loop_cs: "lookup_loop (Some n) p lst = lookup_cs n (comps p) lst"
proof (induction "Some n" p lst arbitrary: n rule: lookup_loop.induct)
  case (1 p lst)
  show ?case
  proof (cases "p = []")
    case True
    then show ?thesis by (subst lookup_loop.simps) simp
  next
    case False
    obtain h t where ht: "pathTakeFirst p = (h, t)" by (cases "pathTakeFirst p")
    show ?thesis
    proof (cases "map_of (children n) h")
      case None
      then show ?thesis using False ht
        by (subst lookup_loop.simps) (simp add: comps_step Let_def)
    next
      case (Some ch)
      have "lookup_loop (Some ch) t (if nvalue n \<noteq> None then Some n else lst)
            = lookup_cs ch (comps t) (if nvalue n \<noteq> None then Some n else lst)"
        using "1.hyps" [of n _ h t ch] False ht Some by simp
      then show ?thesis using False ht Some
        by (subst lookup_loop.simps) (simp add: comps_step Let_def)
    qed
  qed
qed

lemma get_loop_cs: "get_loop (Some n) p = get_cs n (comps p)"
proof (induction "Some n" p arbitrary: n rule: get_loop.induct)
  case (1 p)
  show ?case
  proof (cases "p = []")
    case True
    then show ?thesis by (subst get_loop.simps) simp
  next
    case False
    obtain h t where ht: "pathTakeFirst p = (h, t)" by (cases "pathTakeFirst p")
    show ?thesis
    proof (cases "map_of (children n) h")
      case None
      then show ?thesis using False ht
        by (subst get_loop.simps) (simp add: comps_step)
    next
      case (Some ch)
      have "get_loop (Some ch) t = get_cs ch (comps t)"
        using "1.hyps" [of n h t ch] False ht Some by simp
      then show ?thesis using False ht Some
        by (subst get_loop.simps) (simp add: comps_step)
    qed
  qed
qed

lemma indexByte_None: "indexByte p c = None \<longleftrightarrow> c \<notin> set p"
  by (induction p) (auto split: option.splits)

lemma indexByte_Some:
  "indexByte p c = Some i \<Longrightarrow> p = take i p @ c # drop (Suc i) p \<and> c \<notin> set (take i p)"
proof (induction p arbitrary: i)
  case Nil
  then show ?case by simp
next
  case (Cons x xs)
  show ?case
  proof (cases "x = c")
    case True
    with Cons.prems show ?thesis by simp
  next
    case False
    with Cons.prems obtain j where j: "indexByte xs c = Some j" "i = Suc j"
      by (auto split: option.splits)
    from Cons.IH [OF j(1)] show ?thesis using False j(2) by simp
  qed
qed

lemma pathTakeFirst_cases:
  "pathTakeFirst p = (h, t) \<Longrightarrow>
     CHR ''/'' \<notin> set h \<and> ((p = h \<and> t = []) \<or> p = h @ CHR ''/'' # t)"
  by (auto simp: pathTakeFirst_def indexByte_None split: option.splits dest: indexByte_Some)

lemma set_loop_Nil: "set_loop orig cur [] v n = Inr (Node (name n) (path n) (Some v) (children n))"
  by (subst set_loop.simps) simp

lemma set_loop_step:
  "p \<noteq> [] \<Longrightarrow> pathTakeFirst p = (h, t) \<Longrightarrow>
   set_loop orig cur p v n =
     (case (case map_of (children n) h of
              Some ch \<Rightarrow> Inr ch
            | None \<Rightarrow>
                (if step_len cur h \<le> length orig
                 then Inr (Node h (take (step_len cur h) orig) None [])
                 else Inl SliceBoundsOutOfRange)) of
        Inl e \<Rightarrow> Inl e
      | Inr ch \<Rightarrow>
          (case set_loop orig (step_len cur h) t v ch of
             Inl e \<Rightarrow> Inl e
           | Inr ch' \<Rightarrow>
               Inr (Node (name n) (path n) (nvalue n) (AList.update h ch' (children n)))))"
  by (subst set_loop.simps) (auto simp: Let_def step_len_def split: option.splits sum.splits)

lemma set_loop_cs:
  "p = [] \<or> step_len cur p \<le> length orig \<Longrightarrow>
   set_loop orig cur p v n = Inr (set_cs orig cur (comps p) v n)"
proof (induction orig cur p v n rule: set_loop.induct)
  case (1 orig cur p v n)
  show ?case
  proof (cases "p = []")
    case True
    then show ?thesis by (simp add: set_loop_Nil)
  next
    case False
    obtain h t where ht: "pathTakeFirst p = (h, t)" by (cases "pathTakeFirst p")
    from pathTakeFirst_cases [OF ht]
    have shape: "(p = h \<and> t = []) \<or> p = h @ CHR ''/'' # t" by simp
    from "1.prems" False have bound: "step_len cur p \<le> length orig" by simp
    from shape bound have here: "step_len cur h \<le> length orig"
      by (auto simp: step_len_def split: if_splits)
    from shape bound have later: "t = [] \<or> step_len (step_len cur h) t \<le> length orig"
      by (auto simp: step_len_def split: if_splits)
    define ch where "ch = (case map_of (children n) h of
        Some c \<Rightarrow> c | None \<Rightarrow> Node h (take (step_len cur h) orig) None [])"
    have sel: "(case map_of (children n) h of
                       Some c \<Rightarrow> Inr c
                     | None \<Rightarrow>
                         (if step_len cur h \<le> length orig
                          then Inr (Node h (take (step_len cur h) orig) None [])
                          else Inl SliceBoundsOutOfRange)) = Inr ch"
      using here by (simp add: ch_def split: option.splits)
    have rec: "set_loop orig (step_len cur h) t v ch
               = Inr (set_cs orig (step_len cur h) (comps t) v ch)"
      using "1.IH" [OF _ ht [symmetric] refl refl sel [unfolded step_len_def]] False later
      by (simp add: step_len_def)
    show ?thesis
      by (simp add: set_loop_step [OF False ht] sel [unfolded ch_def] rec [unfolded ch_def]
            comps_step [OF False ht])
  qed
qed

lemma set_node_cs: "set_node p v n = Inr (set_cs p 0 (comps p) v n)"
  unfolding set_node_def by (rule set_loop_cs) (simp add: step_len_def)

lemma Set_cs:
  "Set p v t = Inr \<lparr> root = set_cs p 0 (comps p) v (root t), countHint = countHint t + 1 \<rparr>"
  by (simp add: Set_def set_node_cs)

lemma value_at_Nil [simp]: "value_at n [] = nvalue n"
  by (simp add: value_at_def)

lemma value_at_Cons:
  "value_at n (d # ds) = (case map_of (children n) d of None \<Rightarrow> None | Some ch \<Rightarrow> value_at ch ds)"
  by (simp add: value_at_def split: option.splits)

lemma value_at_fresh [simp]: "value_at (Node c pth None []) ds = None"
  by (cases ds) (simp_all add: value_at_Cons)

lemma value_at_set_cs:
  "value_at (set_cs orig cur cs v n) ds = (if ds = cs then Some v else value_at n ds)"
proof (induction cs arbitrary: ds n cur)
  case Nil
  then show ?case by (cases ds) (simp_all add: value_at_Cons)
next
  case (Cons c cs)
  show ?case
  proof (cases ds)
    case Nil
    then show ?thesis by simp
  next
    case (Cons d ds')
    then show ?thesis
      by (simp add: value_at_Cons update_conv' Cons.IH split: option.splits)
  qed
qed

lemma res_of_lookup_cs: "res_of (lookup_cs n cs lst) = lres n cs (res_of lst)"
  by (induction cs arbitrary: n lst) (auto simp: res_of_def split: option.splits)

lemma Lookup_lres: "Lookup t p = lres (root t) (comps p) None"
  using res_of_lookup_cs [of "root t" "comps p" None]
  by (simp add: Lookup_def lookup_def lookup_loop_cs res_of_def)

lemma lres_fresh [simp]: "lres (Node c pth None []) qs b = b"
  by (cases qs) simp_all

lemma path_set_cs [simp]: "path (set_cs orig cur cs v n) = path n"
  by (cases cs) simp_all

lemma name_set_cs [simp]: "name (set_cs orig cur cs v n) = name n"
  by (cases cs) simp_all

lemma lres_set_cs_frame:
  "\<not> prefix cs qs \<Longrightarrow> lres (set_cs orig cur cs v n) qs b = lres n qs b"
proof (induction cs arbitrary: qs n cur b)
  case Nil
  then show ?case by simp
next
  case (Cons c cs)
  show ?case
  proof (cases qs)
    case Nil
    then show ?thesis by (simp split: option.splits)
  next
    case (Cons q qs')
    with Cons.prems have "q = c \<Longrightarrow> \<not> prefix cs qs'" by simp
    then show ?thesis using Cons
      by (simp add: update_conv' Cons.IH split: option.splits)
  qed
qed

lemma lres_set_cs_same: "\<exists>pth. lres (set_cs orig cur cs v n) cs b = Some (pth, v)"
  by (induction cs arbitrary: n cur b) (auto simp: update_conv')

lemma join_Cons: "cs \<noteq> [] \<Longrightarrow> join (c # cs) = c @ CHR ''/'' # join cs"
  by (cases cs) simp_all

lemma comps_eq_Nil [simp]: "comps p = [] \<longleftrightarrow> p = []"
proof (cases "p = []")
  case True
  then show ?thesis by simp
next
  case False
  obtain h t where "pathTakeFirst p = (h, t)" by (cases "pathTakeFirst p")
  with False show ?thesis by (simp add: comps_step)
qed

lemma join_comps: "join (comps p) = p \<or> join (comps p) @ [CHR ''/''] = p"
proof (induction p rule: comps.induct)
  case (1 p)
  show ?case
  proof (cases "p = []")
    case True
    then show ?thesis by simp
  next
    case False
    obtain h t where ht: "pathTakeFirst p = (h, t)" by (cases "pathTakeFirst p")
    have cp: "comps p = h # comps t" using False ht by (rule comps_step)
    from pathTakeFirst_cases [OF ht]
    consider "p = h" "t = []" | "p = h @ CHR ''/'' # t" by blast
    then show ?thesis
    proof cases
      case 1
      show ?thesis unfolding cp using 1 by simp
    next
      case 2
      show ?thesis
      proof (cases "t = []")
        case True
        show ?thesis unfolding cp using 2 True by simp
      next
        case False
        have "join (comps t) = t \<or> join (comps t) @ [CHR ''/''] = t"
          using "1.IH" [OF _ ht [symmetric]] \<open>p \<noteq> []\<close> by simp
        moreover have "join (h # comps t) = h @ CHR ''/'' # join (comps t)"
          using False by (simp add: join_Cons)
        ultimately show ?thesis unfolding cp using 2 by auto
      qed
    qed
  qed
qed

lemma join_comps_clean: "p = [] \<or> last p \<noteq> CHR ''/'' \<Longrightarrow> join (comps p) = p"
proof -
  assume a: "p = [] \<or> last p \<noteq> CHR ''/''"
  have "join (comps p) @ [CHR ''/''] = p \<Longrightarrow> last p = CHR ''/''"
    using last_snoc [of "join (comps p)" "CHR ''/''"] by simp
  with a join_comps [of p] show ?thesis by (cases "p = []") auto
qed

lemma join_append: "ds \<noteq> [] \<Longrightarrow> es \<noteq> [] \<Longrightarrow> join (ds @ es) = join ds @ CHR ''/'' # join es"
  by (induction ds rule: join.induct) (simp_all add: join_Cons)

lemma prefix_join: "prefix es cs \<Longrightarrow> prefix (join es) (join cs)"
proof -
  assume "prefix es cs"
  then obtain r where "cs = es @ r" by (auto simp: prefix_def)
  then show ?thesis by (cases "es = []"; cases "r = []") (simp_all add: join_append)
qed

lemma prefix_join_comps: "prefix es (comps p) \<Longrightarrow> prefix (join es) p"
proof -
  assume "prefix es (comps p)"
  then have "prefix (join es) (join (comps p))" by (rule prefix_join)
  moreover have "prefix (join (comps p)) p"
    using join_comps [of p] prefixI [of p "join (comps p)" "[CHR ''/'']"] by auto
  ultimately show ?thesis by (rule prefix_order.trans)
qed

lemma adv_append: "adv cur (ds @ es) = adv (adv cur ds) es"
  by (induction ds arbitrary: cur) simp_all

lemma adv_pos: "0 < cur \<Longrightarrow> adv cur ds = cur + sum_list (map (\<lambda>c. Suc (length c)) ds)"
  by (induction ds arbitrary: cur) (simp_all add: step_len_def)

lemma length_join: "length (join (d # ds)) = length d + sum_list (map (\<lambda>c. Suc (length c)) ds)"
  by (induction ds arbitrary: d) (simp_all add: join_Cons)

lemma adv_le_join: "adv 0 ds \<le> length (join ds)"
proof (induction ds)
  case Nil
  then show ?case by simp
next
  case (Cons d ds)
  show ?case
  proof (cases "d = []")
    case True
    have "length (join ds) \<le> length (join ([] # ds))" by (cases ds) (simp_all add: join_Cons)
    with Cons True show ?thesis by (simp add: step_len_def)
  next
    case False
    then show ?thesis by (simp add: step_len_def adv_pos length_join)
  qed
qed

lemma adv_eq_join: "ds = [] \<or> hd ds \<noteq> [] \<Longrightarrow> adv 0 ds = length (join ds)"
  by (cases ds) (simp_all add: step_len_def adv_pos length_join)

lemma npath_prefix: "prefix (npath ds) (join ds)"
  by (simp add: npath_def take_is_prefix)

lemma npath_clean: "ds = [] \<or> hd ds \<noteq> [] \<Longrightarrow> npath ds = join ds"
  by (simp add: npath_def adv_eq_join)

lemma take_adv_orig: "prefix ds (comps p) \<Longrightarrow> take (adv 0 ds) p = npath ds"
proof -
  assume "prefix ds (comps p)"
  then obtain r where "p = join ds @ r" using prefix_join_comps by (auto simp: prefix_def)
  then show ?thesis using adv_le_join [of ds] by (simp add: npath_def)
qed

lemma pinvD: "pinv n ds0 \<Longrightarrow> get_cs n ds = Some m \<Longrightarrow> path m = npath (ds0 @ ds)"
  by (simp add: pinv_def)

lemma pinv_root: "pinv n ds0 \<Longrightarrow> path n = npath ds0"
  unfolding pinv_def using get_cs.simps(1) [of n] by (metis append_Nil2)

lemma pinv_child:
  "pinv n ds0 \<Longrightarrow> map_of (children n) c = Some ch \<Longrightarrow> pinv ch (ds0 @ [c])"
  unfolding pinv_def
proof (intro allI impI)
  fix ds m
  assume a: "\<forall>ds m. get_cs n ds = Some m \<longrightarrow> path m = npath (ds0 @ ds)"
    and c: "map_of (children n) c = Some ch" and g: "get_cs ch ds = Some m"
  from c g have "get_cs n (c # ds) = Some m" by simp
  with a have "path m = npath (ds0 @ c # ds)" by blast
  then show "path m = npath ((ds0 @ [c]) @ ds)" by simp
qed

lemma pinv_fresh: "pinv (Node c (npath ds0) (None :: 'a option) []) ds0"
  unfolding pinv_def
proof (intro allI impI)
  fix ds m
  assume "get_cs (Node c (npath ds0) None []) ds = Some m"
  then show "path m = npath (ds0 @ ds)" by (cases ds) auto
qed

lemma pinv_set_cs:
  "pinv n ds0 \<Longrightarrow> comps p = ds0 @ cs \<Longrightarrow> pinv (set_cs p (adv 0 ds0) cs v n) ds0"
proof (induction cs arbitrary: n ds0)
  case Nil
  show ?case unfolding pinv_def
  proof (intro allI impI)
    fix ds m
    assume g: "get_cs (set_cs p (adv 0 ds0) [] v n) ds = Some m"
    show "path m = npath (ds0 @ ds)"
    proof (cases ds)
      case Nil
      with g pinv_root [OF Nil.prems(1)] show ?thesis by auto
    next
      case (Cons d ds')
      with g have "get_cs n ds = Some m" by simp
      with Nil.prems(1) show ?thesis by (rule pinvD)
    qed
  qed
next
  case (Cons c cs)
  let ?cur = "step_len (adv 0 ds0) c"
  let ?ch0 = "case map_of (children n) c of Some ch \<Rightarrow> ch
               | None \<Rightarrow> Node c (take ?cur p) None []"
  have cur: "?cur = adv 0 (ds0 @ [c])" by (simp add: adv_append)
  have pre: "prefix (ds0 @ [c]) (comps p)" using Cons.prems(2) by (simp add: prefix_def)
  have fresh: "take ?cur p = npath (ds0 @ [c])"
    unfolding cur using pre by (rule take_adv_orig)
  have ch0: "pinv ?ch0 (ds0 @ [c])"
  proof (cases "map_of (children n) c")
    case None
    then show ?thesis using pinv_fresh [of c "ds0 @ [c]"] by (simp add: fresh)
  next
    case (Some ch)
    then show ?thesis using pinv_child [OF Cons.prems(1) Some] by simp
  qed
  have rec: "pinv (set_cs p ?cur cs v ?ch0) (ds0 @ [c])"
    using Cons.IH [of ?ch0 "ds0 @ [c]"] ch0 Cons.prems(2) by (simp add: adv_append)
  show ?case unfolding pinv_def
  proof (intro allI impI)
    fix ds m
    assume g: "get_cs (set_cs p (adv 0 ds0) (c # cs) v n) ds = Some m"
    show "path m = npath (ds0 @ ds)"
    proof (cases ds)
      case Nil
      with g pinv_root [OF Cons.prems(1)] show ?thesis by auto
    next
      case (Cons d ds')
      show ?thesis
      proof (cases "d = c")
        case True
        with g Cons have "get_cs (set_cs p ?cur cs v ?ch0) ds' = Some m"
          by (simp add: update_conv')
        with rec have "path m = npath ((ds0 @ [c]) @ ds')" by (rule pinvD)
        then show ?thesis using Cons True by simp
      next
        case False
        with g Cons have "get_cs n ds = Some m" by (simp add: update_conv')
        with Cons.prems(1) show ?thesis by (rule pinvD)
      qed
    qed
  qed
qed

lemma get_cs_zeroNode: "get_cs zeroNode ds = Some m \<Longrightarrow> ds = [] \<and> m = zeroNode"
  by (cases ds) (auto simp: zeroNode_def)

lemma pinv_zeroNode: "pinv zeroNode []"
  unfolding pinv_def
proof (intro allI impI)
  fix ds and m :: "'a pathTreeNode"
  assume "get_cs zeroNode ds = Some m"
  from get_cs_zeroNode [OF this] show "path m = npath ([] @ ds)"
    by (simp add: zeroNode_def npath_def)
qed

lemma Set_total: "\<exists>t'. Set p v t = Inr t'"
  by (simp add: Set_cs)

lemma build_from_pinv:
  "pinv (root t) [] \<Longrightarrow> \<exists>t'. build_from t ops = Inr t' \<and> pinv (root t') []"
proof (induction ops arbitrary: t)
  case Nil
  then show ?case by simp
next
  case (Cons op ops)
  obtain p v where op: "op = (p, v)" by (cases op)
  let ?t1 = "\<lparr> root = set_cs p 0 (comps p) v (root t), countHint = countHint t + 1 \<rparr>"
  have "pinv (set_cs p (adv 0 []) (comps p) v (root t)) []"
    using Cons.prems by (rule pinv_set_cs) simp
  then have "pinv (root ?t1) []" by simp
  from Cons.IH [OF this] show ?case by (simp add: op Set_cs)
qed

lemma build_pinv: "\<exists>t. build ops = Inr t \<and> pinv (root t) []"
  unfolding build_def using pinv_zeroNode by (intro build_from_pinv) (simp add: zeroTree_def)

lemma lres_found:
  "lres n cs b = Some r \<Longrightarrow>
   b = Some r \<or> (\<exists>k m v. k \<le> length cs \<and> get_cs n (take k cs) = Some m \<and>
                     nvalue m = Some v \<and> r = (path m, v))"
proof (induction cs arbitrary: n b)
  case Nil
  then show ?case by (auto split: option.splits)
next
  case (Cons c cs)
  show ?case
  proof (cases "map_of (children n) c")
    case None
    with Cons.prems have "b = Some r \<or> (\<exists>v. nvalue n = Some v \<and> r = (path n, v))"
      by (auto split: option.splits)
    then show ?thesis
    proof
      assume "b = Some r" then show ?thesis by simp
    next
      assume "\<exists>v. nvalue n = Some v \<and> r = (path n, v)"
      then obtain v where "nvalue n = Some v" "r = (path n, v)" by blast
      then have "0 \<le> length (c # cs) \<and> get_cs n (take 0 (c # cs)) = Some n \<and>
                 nvalue n = Some v \<and> r = (path n, v)" by simp
      then show ?thesis by blast
    qed
  next
    case (Some ch)
    let ?b = "case nvalue n of Some v \<Rightarrow> Some (path n, v) | None \<Rightarrow> b"
    from Cons.prems Some have "lres ch cs ?b = Some r" by simp
    from Cons.IH [OF this] show ?thesis
    proof
      assume "?b = Some r"
      then have "b = Some r \<or> (\<exists>v. nvalue n = Some v \<and> r = (path n, v))"
        by (auto split: option.splits)
      then show ?thesis
      proof
        assume "b = Some r" then show ?thesis by simp
      next
        assume "\<exists>v. nvalue n = Some v \<and> r = (path n, v)"
        then obtain v where "nvalue n = Some v" "r = (path n, v)" by blast
        then have "0 \<le> length (c # cs) \<and> get_cs n (take 0 (c # cs)) = Some n \<and>
                 nvalue n = Some v \<and> r = (path n, v)" by simp
        then show ?thesis by blast
      qed
    next
      assume "\<exists>k m v. k \<le> length cs \<and> get_cs ch (take k cs) = Some m \<and>
                     nvalue m = Some v \<and> r = (path m, v)"
      then obtain k m v where k: "k \<le> length cs" "get_cs ch (take k cs) = Some m"
        "nvalue m = Some v" "r = (path m, v)" by blast
      then have "Suc k \<le> length (c # cs) \<and> get_cs n (take (Suc k) (c # cs)) = Some m \<and>
                 nvalue m = Some v \<and> r = (path m, v)" using Some by simp
      then show ?thesis by blast
    qed
  qed
qed

lemma lres_exact:
  "get_cs n cs = Some m \<Longrightarrow> nvalue m = Some v \<Longrightarrow> lres n cs b = Some (path m, v)"
  by (induction cs arbitrary: n b) (auto split: option.splits)

lemma Lookup_found:
  assumes "pinv (root t) []" and "Lookup t p = Some (mp, v)"
  shows "\<exists>k. k \<le> length (comps p) \<and> mp = npath (take k (comps p)) \<and>
             value_at (root t) (take k (comps p)) = Some v"
proof -
  from assms(2) have "lres (root t) (comps p) None = Some (mp, v)" by (simp add: Lookup_lres)
  from lres_found [OF this] obtain k m where k: "k \<le> length (comps p)"
    "get_cs (root t) (take k (comps p)) = Some m" "nvalue m = Some v" "mp = path m" by auto
  from pinvD [OF assms(1) k(2)] have "path m = npath (take k (comps p))" by simp
  with k show ?thesis by (auto simp: value_at_def)
qed

lemma lookup_cs_walk: "lookup_cs n cs lst = foldl record_best lst (walk n cs)"
  by (induction cs arbitrary: n lst) (auto simp: record_best_def split: option.splits)

lemma foldl_record_best:
  "foldl record_best lst ns =
     (case filter (\<lambda>m. nvalue m \<noteq> None) ns of [] \<Rightarrow> lst | x # xs \<Rightarrow> Some (last (x # xs)))"
proof (induction ns rule: rev_induct)
  case Nil
  then show ?case by simp
next
  case (snoc n ns)
  then show ?case by (auto simp: record_best_def split: list.splits)
qed



lemma lres_zeroNode: "lres zeroNode cs None = None"
  by (cases cs) (simp_all add: zeroNode_def)



lemma length_comps: "length (comps p) \<le> length p"
proof (induction p rule: comps.induct)
  case (1 p)
  show ?case
  proof (cases "p = []")
    case True
    then show ?thesis by simp
  next
    case False
    obtain h t where ht: "pathTakeFirst p = (h, t)" by (cases "pathTakeFirst p")
    from "1.IH" [OF _ ht [symmetric]] False have "length (comps t) \<le> length t" by simp
    with pathTakeFirst_shrinks [OF False ht] show ?thesis
      by (simp add: comps_step [OF False ht])
  qed
qed

lemma pathTakeFirst_sep:
  "CHR ''/'' \<notin> set h \<Longrightarrow> pathTakeFirst (h @ CHR ''/'' # r) = (h, r)"
proof -
  assume a: "CHR ''/'' \<notin> set h"
  have "indexByte (h @ CHR ''/'' # r) (CHR ''/'') = Some (length h)"
    using a by (induction h) auto
  then show ?thesis by (simp add: pathTakeFirst_def)
qed

lemma pathTakeFirst_nosep: "CHR ''/'' \<notin> set h \<Longrightarrow> pathTakeFirst h = (h, [])"
proof -
  assume "CHR ''/'' \<notin> set h"
  then have "indexByte h (CHR ''/'') = None" by (simp add: indexByte_None)
  then show ?thesis by (simp add: pathTakeFirst_def)
qed

lemma comps_sep:
  "CHR ''/'' \<notin> set h \<Longrightarrow> comps (h @ CHR ''/'' # r) = h # comps r"
  by (rule comps_step) (simp_all add: pathTakeFirst_sep)

lemma comps_nosep: "CHR ''/'' \<notin> set h \<Longrightarrow> h \<noteq> [] \<Longrightarrow> comps h = [h]"
  using comps_step [of h h "[]"] by (simp add: pathTakeFirst_nosep)





lemma shape_eq:
  "shape n = Node (name n) (path n) None (map (\<lambda>kc. (fst kc, shape (snd kc))) (children n))"
  by (cases n) simp

lemma map_update_same:
  "map_of al k = Some x \<Longrightarrow> f y = f x \<Longrightarrow>
   map (\<lambda>kc. (fst kc, f (snd kc))) (AList.update k y al) = map (\<lambda>kc. (fst kc, f (snd kc))) al"
  by (induction al) (auto split: if_splits)

lemma shape_set_cs:
  "get_cs n cs \<noteq> None \<Longrightarrow> shape (set_cs orig cur cs v n) = shape n"
proof (induction cs arbitrary: n cur)
  case Nil
  show ?case by (simp add: shape_eq [of n] shape_eq [of "Node (name n) (path n) (Some v) (children n)"])
next
  case (Cons c cs)
  from Cons.prems obtain ch where ch: "map_of (children n) c = Some ch" "get_cs ch cs \<noteq> None"
    by (auto split: option.splits)
  have "shape (set_cs orig (step_len cur c) cs v ch) = shape ch"
    using ch(2) by (rule Cons.IH)
  with ch(1) have "map (\<lambda>kc. (fst kc, shape (snd kc)))
            (AList.update c (set_cs orig (step_len cur c) cs v ch) (children n))
        = map (\<lambda>kc. (fst kc, shape (snd kc))) (children n)"
    by (rule map_update_same)
  then show ?case using ch(1) by (simp add: shape_eq [of n])
qed

lemma split_sep_ne [simp]: "split_sep p \<noteq> []"
  by (cases p) simp_all

lemma split_sep_nosep: "CHR ''/'' \<notin> set h \<Longrightarrow> split_sep h = [h]"
  by (induction h) auto

lemma split_sep_sep:
  "CHR ''/'' \<notin> set h \<Longrightarrow> split_sep (h @ CHR ''/'' # r) = h # split_sep r"
  by (induction h) auto

lemma comps_split_sep:
  "comps p = (if p = [] then [] else if last p = CHR ''/'' then butlast (split_sep p)
              else split_sep p)"
proof (induction p rule: comps.induct)
  case (1 p)
  show ?case
  proof (cases "p = []")
    case True
    then show ?thesis by simp
  next
    case False
    obtain h t where ht: "pathTakeFirst p = (h, t)" by (cases "pathTakeFirst p")
    from pathTakeFirst_cases [OF ht]
    have nos: "CHR ''/'' \<notin> set h" and shape: "(p = h \<and> t = []) \<or> p = h @ CHR ''/'' # t"
      by simp_all
    have cp: "comps p = h # comps t" using False ht by (rule comps_step)
    from shape show ?thesis
    proof
      assume a: "p = h \<and> t = []"
      with False have "last p \<in> set h" by simp
      with nos have "last p \<noteq> CHR ''/''" by auto
      with a False nos show ?thesis by (simp add: comps_nosep split_sep_nosep)
    next
      assume a: "p = h @ CHR ''/'' # t"
      have sp: "split_sep p = h # split_sep t" unfolding a using nos by (rule split_sep_sep)
      show ?thesis
      proof (cases "t = []")
        case True
        have lp: "last p = CHR ''/''" using a True by simp
        show ?thesis using False lp True by (simp add: cp sp)
      next
        case tne: False
        from "1.IH" [OF _ ht [symmetric]] False tne
        have ih: "comps t = (if last t = CHR ''/'' then butlast (split_sep t) else split_sep t)"
          by simp
        have lp: "last p = last t" using a tne by simp
        show ?thesis using False lp ih by (simp add: cp sp)
      qed
    qed
  qed
qed

lemma ninv_child: "ninv n \<Longrightarrow> map_of (children n) c = Some ch \<Longrightarrow> ninv ch \<and> name ch = c"
proof
  assume n: "ninv n" and c: "map_of (children n) c = Some ch"
  show "ninv ch" unfolding ninv_def
  proof (intro allI impI)
    fix ds m
    assume ne: "ds \<noteq> []" and g: "get_cs ch ds = Some m"
    from c g have "get_cs n (c # ds) = Some m" by simp
    with n have "name m = last (c # ds)" unfolding ninv_def by blast
    with ne show "name m = last ds" by simp
  qed
  from c have "get_cs n [c] = Some ch" by simp
  with n have "name ch = last [c]" unfolding ninv_def by blast
  then show "name ch = c" by simp
qed

lemma ninv_fresh: "ninv (Node c pth (None :: 'a option) [])"
  unfolding ninv_def
proof (intro allI impI)
  fix ds and m :: "'a pathTreeNode"
  assume "ds \<noteq> []" and "get_cs (Node c pth None []) ds = Some m"
  then show "name m = last ds" by (cases ds) auto
qed

lemma ninv_set_cs: "ninv n \<Longrightarrow> ninv (set_cs orig cur cs v n)"
proof (induction cs arbitrary: n cur)
  case Nil
  show ?case unfolding ninv_def
  proof (intro allI impI)
    fix ds m
    assume ne: "ds \<noteq> []" and g: "get_cs (set_cs orig cur [] v n) ds = Some m"
    from ne obtain d ds' where ds: "ds = d # ds'" by (cases ds) auto
    with g have "get_cs n ds = Some m" by simp
    with Nil ne show "name m = last ds" unfolding ninv_def by blast
  qed
next
  case (Cons c cs)
  let ?ch0 = "case map_of (children n) c of Some ch \<Rightarrow> ch
               | None \<Rightarrow> Node c (take (step_len cur c) orig) None []"
  have ch0: "ninv ?ch0 \<and> name ?ch0 = c"
  proof (cases "map_of (children n) c")
    case None
    then show ?thesis using ninv_fresh [of c "take (step_len cur c) orig"] by simp
  next
    case (Some ch)
    then show ?thesis using ninv_child [OF Cons.prems Some] by simp
  qed
  then have rec: "ninv (set_cs orig (step_len cur c) cs v ?ch0)" by (intro Cons.IH) simp
  show ?case unfolding ninv_def
  proof (intro allI impI)
    fix ds m
    assume ne: "ds \<noteq> []" and g: "get_cs (set_cs orig cur (c # cs) v n) ds = Some m"
    from ne obtain d ds' where ds: "ds = d # ds'" by (cases ds) auto
    show "name m = last ds"
    proof (cases "d = c")
      case True
      with g ds have g': "get_cs (set_cs orig (step_len cur c) cs v ?ch0) ds' = Some m"
        by (simp add: update_conv')
      show ?thesis
      proof (cases "ds' = []")
        case True
        with g' have "m = set_cs orig (step_len cur c) cs v ?ch0" by simp
        then have "name m = c" using ch0 by simp
        with True \<open>d = c\<close> ds show ?thesis by simp
      next
        case False
        with rec g' have "name m = last ds'" unfolding ninv_def by blast
        with False ds show ?thesis by simp
      qed
    next
      case False
      with g ds have "get_cs n ds = Some m" by (simp add: update_conv')
      with Cons.prems ne show ?thesis unfolding ninv_def by blast
    qed
  qed
qed

lemma walk_set_cs: "ninv n \<Longrightarrow> map name (walk (set_cs orig cur cs v n) cs) = name n # cs"
proof (induction cs arbitrary: n cur)
  case Nil
  then show ?case by simp
next
  case (Cons c cs)
  let ?ch0 = "case map_of (children n) c of Some ch \<Rightarrow> ch
               | None \<Rightarrow> Node c (take (step_len cur c) orig) None []"
  have ch0: "ninv ?ch0 \<and> name ?ch0 = c"
  proof (cases "map_of (children n) c")
    case None
    then show ?thesis using ninv_fresh [of c "take (step_len cur c) orig"] by simp
  next
    case (Some ch)
    then show ?thesis using ninv_child [OF Cons.prems Some] by simp
  qed
  then have "map name (walk (set_cs orig (step_len cur c) cs v ?ch0) cs) = name ?ch0 # cs"
    by (intro Cons.IH) simp
  with ch0 show ?case by (simp add: update_conv')
qed

lemma ninv_zeroNode: "ninv zeroNode"
  unfolding zeroNode_def by (rule ninv_fresh)

lemma build_from_ninv:
  "ninv (root t) \<Longrightarrow>
   \<exists>t'. build_from t ops = Inr t' \<and> ninv (root t') \<and> name (root t') = name (root t)"
proof (induction ops arbitrary: t)
  case Nil
  then show ?case by simp
next
  case (Cons op ops)
  obtain p v where op: "op = (p, v)" by (cases op)
  let ?t1 = "\<lparr> root = set_cs p 0 (comps p) v (root t), countHint = countHint t + 1 \<rparr>"
  have "ninv (root ?t1)" using Cons.prems by (simp add: ninv_set_cs)
  from Cons.IH [OF this] show ?case by (simp add: op Set_cs)
qed

lemma build_from_append:
  "build_from t (ops @ ops') =
     (case build_from t ops of Inl e \<Rightarrow> Inl e | Inr t' \<Rightarrow> build_from t' ops')"
  by (induction ops arbitrary: t) (auto split: sum.splits)

lemma clean_join: "clean p \<Longrightarrow> join (comps p) = p"
  by (rule join_comps_clean) (auto simp: clean_def)

lemma clean_inj: "clean p \<Longrightarrow> clean q \<Longrightarrow> comps p = comps q \<Longrightarrow> p = q"
proof -
  assume a: "clean p" "clean q" "comps p = comps q"
  have "p = join (comps p)" by (rule clean_join [OF a(1), symmetric])
  also have "\<dots> = join (comps q)" by (simp only: a(3))
  also have "\<dots> = q" by (rule clean_join [OF a(2)])
  finally show ?thesis .
qed

lemma clean_hd_comps: "clean p \<Longrightarrow> comps p = [] \<or> hd (comps p) \<noteq> []"
proof (cases "p = []")
  case True
  then show ?thesis by simp
next
  case False
  assume c: "clean p"
  obtain h t where ht: "pathTakeFirst p = (h, t)" by (cases "pathTakeFirst p")
  from pathTakeFirst_cases [OF ht] have "(p = h \<and> t = []) \<or> p = h @ CHR ''/'' # t" by simp
  with False c have "h \<noteq> []" by (auto simp: clean_def)
  then show ?thesis by (simp add: comps_step [OF False ht])
qed

lemma clean_npath: "clean p \<Longrightarrow> npath (comps p) = p"
  using clean_hd_comps [of p] by (simp add: npath_clean clean_join)

lemma items_from_Cons: "items_from m ((k, v) # ops) = items_from (m(k \<mapsto> v)) ops"
  by (simp add: items_from_def)

lemma build_from_items:
  assumes "\<forall>kv\<in>set ops. clean (fst kv)"
    and "\<forall>q. clean q \<longrightarrow> value_at (root t) (comps q) = m q"
    and "\<forall>ds v. value_at (root t) ds = Some v \<longrightarrow> (\<exists>q. clean q \<and> comps q = ds)"
    and "pinv (root t) []"
  shows "\<exists>t'. build_from t ops = Inr t' \<and> pinv (root t') [] \<and>
           (\<forall>q. clean q \<longrightarrow> value_at (root t') (comps q) = items_from m ops q) \<and>
           (\<forall>ds v. value_at (root t') ds = Some v \<longrightarrow> (\<exists>q. clean q \<and> comps q = ds))"
  using assms
proof (induction ops arbitrary: t m)
  case Nil
  then show ?case by (simp add: items_from_def)
next
  case (Cons op ops)
  obtain k v where op: "op = (k, v)" by (cases op)
  from Cons.prems(1) op have ck: "clean k" and rest: "\<forall>kv\<in>set ops. clean (fst kv)" by simp_all
  let ?t1 = "\<lparr> root = set_cs k 0 (comps k) v (root t), countHint = countHint t + 1 \<rparr>"
  have s: "Set k v t = Inr ?t1" by (rule Set_cs)
  have a: "\<forall>q. clean q \<longrightarrow> value_at (root ?t1) (comps q) = (m(k \<mapsto> v)) q"
  proof (intro allI impI)
    fix q assume cq: "clean q"
    show "value_at (root ?t1) (comps q) = (m(k \<mapsto> v)) q"
    proof (cases "q = k")
      case True
      then show ?thesis by (simp add: value_at_set_cs)
    next
      case False
      with clean_inj [OF cq ck] have "comps q \<noteq> comps k" by blast
      with Cons.prems(2) cq False show ?thesis by (simp add: value_at_set_cs)
    qed
  qed
  have b: "\<forall>ds w. value_at (root ?t1) ds = Some w \<longrightarrow> (\<exists>q. clean q \<and> comps q = ds)"
  proof (intro allI impI)
    fix ds w assume "value_at (root ?t1) ds = Some w"
    then have "ds = comps k \<or> value_at (root t) ds = Some w"
      by (simp add: value_at_set_cs split: if_splits)
    with ck Cons.prems(3) show "\<exists>q. clean q \<and> comps q = ds" by blast
  qed
  have c: "pinv (root ?t1) []"
    using pinv_set_cs [OF Cons.prems(4), of k "comps k" v] by simp
  have e1: "build_from t (op # ops) = build_from ?t1 ops" by (simp add: op s)
  have e2: "items_from m (op # ops) = items_from (m(k \<mapsto> v)) ops"
    by (simp only: op items_from_Cons)
  from Cons.IH [OF rest a b c] show ?case by (simp only: e1 e2)
qed

lemma value_at_zeroNode: "value_at zeroNode ds = None"
  unfolding zeroNode_def by (rule value_at_fresh)

lemma build_items:
  assumes "\<forall>kv\<in>set ops. clean (fst kv)"
  shows "\<exists>t. build ops = Inr t \<and> pinv (root t) [] \<and>
           (\<forall>q. clean q \<longrightarrow> value_at (root t) (comps q) = items_of ops q) \<and>
           (\<forall>ds v. value_at (root t) ds = Some v \<longrightarrow> (\<exists>q. clean q \<and> comps q = ds))"
  unfolding build_def items_of_def
  by (rule build_from_items [OF assms])
     (simp_all add: zeroTree_def value_at_zeroNode pinv_zeroNode)

lemma join_take_boundary:
  assumes "0 < k" "k < length cs"
  shows "join cs = join (take k cs) @ CHR ''/'' # join (drop k cs)"
proof -
  have "join (take k cs @ drop k cs) = join (take k cs) @ CHR ''/'' # join (drop k cs)"
    using assms by (intro join_append) auto
  then show ?thesis by simp
qed

lemma listByPath_loop_Nil: "listByPath_loop sched [] items = items"
  by (subst listByPath_loop.simps) simp

lemma listByPath_loop_snoc:
  "listByPath_loop sched (xs @ [n]) items =
     listByPath_loop (tl sched)
       (xs @ map snd (pick (case sched of [] \<Rightarrow> [] | ks # rest \<Rightarrow> ks) (children n)))
       (case nvalue n of Some v \<Rightarrow> items(path n \<mapsto> v) | None \<Rightarrow> items)"
  by (subst listByPath_loop.simps) (simp add: Let_def)

lemma nodes_of_self: "n \<in> set (nodes_of n)"
  by (subst nodes_of_eq) simp

lemma nodes_of_child:
  "kc \<in> set (children n) \<Longrightarrow> m \<in> set (nodes_of (snd kc)) \<Longrightarrow> m \<in> set (nodes_of n)"
  by (subst nodes_of_eq) auto

lemma nodes_of_cases:
  "m \<in> set (nodes_of n) \<Longrightarrow>
   m = n \<or> (\<exists>kc\<in>set (children n). m \<in> set (nodes_of (snd kc)))"
  by (subst (asm) nodes_of_eq) auto

lemma listByPath_loop_sound:
  "listByPath_loop sched next items k = Some v \<Longrightarrow>
   items k = Some v \<or>
   (\<exists>n\<in>set next. \<exists>m\<in>set (nodes_of n). path m = k \<and> nvalue m = Some v)"
proof (induction sched "next" items rule: listByPath_loop.induct)
  case (1 sched "next" items)
  show ?case
  proof (cases "next = []")
    case True
    with "1.prems" show ?thesis by (simp add: listByPath_loop_Nil)
  next
    case False
    define n where "n = last next"
    define xs where "xs = butlast next"
    have nx: "next = xs @ [n]" using False by (simp add: n_def xs_def)
    let ?items1 = "case nvalue n of Some v \<Rightarrow> items(path n \<mapsto> v) | None \<Rightarrow> items"
    let ?chs = "pick (case sched of [] \<Rightarrow> [] | ks # rest \<Rightarrow> ks) (children n)"
    have chs: "set ?chs = set (children n)" by (rule set_pick)
    let ?next2 = "xs @ map snd ?chs"
    from "1.prems" have r: "listByPath_loop (tl sched) ?next2 ?items1 k = Some v"
      by (simp add: nx listByPath_loop_snoc)
    have "?items1 k = Some v \<or>
          (\<exists>n'\<in>set ?next2. \<exists>m\<in>set (nodes_of n'). path m = k \<and> nvalue m = Some v)"
      by (rule "1.IH" [OF _ n_def xs_def refl refl r]) (simp add: False)
    then show ?thesis
    proof
      assume "?items1 k = Some v"
      then have "items k = Some v \<or> (path n = k \<and> nvalue n = Some v)"
        by (auto split: option.splits if_splits)
      then show ?thesis using nodes_of_self [of n] by (auto simp: nx)
    next
      assume "\<exists>n'\<in>set ?next2. \<exists>m\<in>set (nodes_of n'). path m = k \<and> nvalue m = Some v"
      then obtain n' m where n': "n' \<in> set ?next2" "m \<in> set (nodes_of n')"
        "path m = k" "nvalue m = Some v" by blast
      from n'(1) chs have "n' \<in> set xs \<or> (\<exists>kc\<in>set (children n). n' = snd kc)" by auto
      then have "\<exists>n''\<in>set next. m \<in> set (nodes_of n'')"
      proof
        assume "n' \<in> set xs" with n'(2) show ?thesis by (auto simp: nx)
      next
        assume "\<exists>kc\<in>set (children n). n' = snd kc"
        then obtain kc where "kc \<in> set (children n)" "n' = snd kc" by blast
        with n'(2) have "m \<in> set (nodes_of n)" by (auto intro: nodes_of_child)
        then show ?thesis by (auto simp: nx)
      qed
      with n'(3,4) show ?thesis by blast
    qed
  qed
qed

lemma listByPath_loop_complete:
  "items k \<noteq> None \<or>
   (\<exists>n\<in>set next. \<exists>m\<in>set (nodes_of n). path m = k \<and> nvalue m \<noteq> None) \<Longrightarrow>
   listByPath_loop sched next items k \<noteq> None"
proof (induction sched "next" items rule: listByPath_loop.induct)
  case (1 sched "next" items)
  show ?case
  proof (cases "next = []")
    case True
    with "1.prems" show ?thesis by (simp add: listByPath_loop_Nil)
  next
    case False
    define n where "n = last next"
    define xs where "xs = butlast next"
    have nx: "next = xs @ [n]" using False by (simp add: n_def xs_def)
    let ?items1 = "case nvalue n of Some v \<Rightarrow> items(path n \<mapsto> v) | None \<Rightarrow> items"
    let ?chs = "pick (case sched of [] \<Rightarrow> [] | ks # rest \<Rightarrow> ks) (children n)"
    have chs: "set ?chs = set (children n)" by (rule set_pick)
    let ?next2 = "xs @ map snd ?chs"
    have keep: "items k \<noteq> None \<Longrightarrow> ?items1 k \<noteq> None" by (auto split: option.splits)
    have pre: "?items1 k \<noteq> None \<or>
          (\<exists>n'\<in>set ?next2. \<exists>m\<in>set (nodes_of n'). path m = k \<and> nvalue m \<noteq> None)"
      using "1.prems"
    proof
      assume "items k \<noteq> None" with keep show ?thesis by blast
    next
      assume "\<exists>n\<in>set next. \<exists>m\<in>set (nodes_of n). path m = k \<and> nvalue m \<noteq> None"
      then obtain n' m where n': "n' \<in> set next" "m \<in> set (nodes_of n')"
        "path m = k" "nvalue m \<noteq> None" by blast
      from n'(1) have "n' \<in> set xs \<or> n' = n" by (auto simp: nx)
      then show ?thesis
      proof
        assume "n' \<in> set xs" with n'(2,3,4) show ?thesis by auto
      next
        assume "n' = n"
        with n'(2) have "m = n \<or> (\<exists>kc\<in>set (children n). m \<in> set (nodes_of (snd kc)))"
          by (auto dest: nodes_of_cases)
        then show ?thesis
        proof
          assume "m = n" with n'(3,4) show ?thesis by (auto split: option.splits)
        next
          assume "\<exists>kc\<in>set (children n). m \<in> set (nodes_of (snd kc))"
          then obtain kc where "kc \<in> set (children n)" "m \<in> set (nodes_of (snd kc))" by blast
          with chs have "snd kc \<in> set ?next2" by auto
          with \<open>m \<in> set (nodes_of (snd kc))\<close> n'(3,4) show ?thesis by blast
        qed
      qed
    qed
    have "listByPath_loop (tl sched) ?next2 ?items1 k \<noteq> None"
      by (rule "1.IH" [OF _ n_def xs_def refl refl pre]) (simp add: False)
    then show ?thesis by (simp add: nx listByPath_loop_snoc)
  qed
qed

lemma listByPath_sound:
  "listByPath sched n Map.empty k = Some v \<Longrightarrow>
   \<exists>m\<in>set (nodes_of n). path m = k \<and> nvalue m = Some v"
  unfolding listByPath_def by (drule listByPath_loop_sound) simp

lemma listByPath_dom:
  "dom (listByPath sched n Map.empty) =
     {path m |m. m \<in> set (nodes_of n) \<and> nvalue m \<noteq> None}"
proof (intro set_eqI iffI)
  fix k assume "k \<in> dom (listByPath sched n Map.empty)"
  then obtain v where "listByPath sched n Map.empty k = Some v" by auto
  from listByPath_sound [OF this]
  show "k \<in> {path m |m. m \<in> set (nodes_of n) \<and> nvalue m \<noteq> None}" by auto
next
  fix k assume "k \<in> {path m |m. m \<in> set (nodes_of n) \<and> nvalue m \<noteq> None}"
  then have "\<exists>n'\<in>set [n]. \<exists>m\<in>set (nodes_of n'). path m = k \<and> nvalue m \<noteq> None" by auto
  then have "listByPath_loop sched [n] Map.empty k \<noteq> None"
    by (intro listByPath_loop_complete) blast
  then show "k \<in> dom (listByPath sched n Map.empty)" by (auto simp: listByPath_def)
qed

lemma ListByPath_get_cs:
  "ListByPath sched t p =
     (case get_cs (root t) (comps p) of
        None \<Rightarrow> Map.empty
      | Some n \<Rightarrow> listByPath sched n Map.empty)"
  by (cases "p = []") (simp_all add: ListByPath_def get_def get_loop_cs)

lemma lres_no_value:
  "(\<forall>j\<le>length rs. value_at m (take j rs) = None) \<Longrightarrow> lres m rs b = b"
proof (induction rs arbitrary: m)
  case Nil
  then show ?case by simp
next
  case (Cons r rs)
  from Cons.prems have here: "nvalue m = None" by (metis le0 take_0 value_at_Nil)
  show ?case
  proof (cases "map_of (children m) r")
    case None
    with here show ?thesis by simp
  next
    case (Some ch)
    have "\<forall>j\<le>length rs. value_at ch (take j rs) = None"
    proof (intro allI impI)
      fix j assume "j \<le> length rs"
      then have "value_at m (take (Suc j) (r # rs)) = None"
        using Cons.prems [rule_format, of "Suc j"] by simp
      with Some show "value_at ch (take j rs) = None" by (simp add: value_at_Cons)
    qed
    from Cons.IH [OF this] Some here show ?thesis by simp
  qed
qed

lemma lres_value_here:
  assumes "\<forall>j. 0 < j \<and> j \<le> length rs \<longrightarrow> value_at m (take j rs) = None"
    and "nvalue m = Some v"
  shows "lres m rs b = Some (path m, v)"
proof (cases rs)
  case Nil
  with assms(2) show ?thesis by simp
next
  case (Cons r rs')
  show ?thesis
  proof (cases "map_of (children m) r")
    case None
    with assms(2) Cons show ?thesis by simp
  next
    case (Some ch)
    have "\<forall>j\<le>length rs'. value_at ch (take j rs') = None"
    proof (intro allI impI)
      fix j assume "j \<le> length rs'"
      then have "value_at m (take (Suc j) (r # rs')) = None"
        using assms(1) [rule_format, of "Suc j"] Cons by simp
      with Some show "value_at ch (take j rs') = None" by (simp add: value_at_Cons)
    qed
    from lres_no_value [OF this] Some assms(2) Cons show ?thesis by simp
  qed
qed

lemma lres_value_below:
  "\<exists>j\<le>length rs. value_at m (take j rs) \<noteq> None \<Longrightarrow> lres m rs b = lres m rs b'"
proof (induction rs arbitrary: m b b')
  case Nil
  then show ?case by (auto split: option.splits)
next
  case (Cons r rs)
  show ?case
  proof (cases "nvalue m")
    case (Some v)
    then show ?thesis by (simp split: option.splits)
  next
    case None
    from Cons.prems obtain j where j: "j \<le> length (r # rs)" "value_at m (take j (r # rs)) \<noteq> None"
      by blast
    with None obtain j' where j': "j = Suc j'" by (cases j) auto
    with j obtain ch where ch: "map_of (children m) r = Some ch" "value_at ch (take j' rs) \<noteq> None"
      by (auto simp: value_at_Cons split: option.splits)
    from j j' have "j' \<le> length rs" by simp
    with ch(2) have "\<exists>j\<le>length rs. value_at ch (take j rs) \<noteq> None" by blast
    from Cons.IH [OF this] ch(1) None show ?thesis by simp
  qed
qed

lemma lres_set_cs_inherit:
  "(\<forall>j. 0 < j \<and> j \<le> length rs \<longrightarrow> value_at n (cs @ take j rs) = None) \<Longrightarrow>
   lres (set_cs orig cur cs v n) (cs @ rs) b = lres (set_cs orig cur cs v n) cs b"
proof (induction cs arbitrary: n cur b)
  case Nil
  let ?m = "Node (name n) (path n) (Some v) (children n)"
  have "\<forall>j. 0 < j \<and> j \<le> length rs \<longrightarrow> value_at ?m (take j rs) = None"
  proof (intro allI impI)
    fix j assume j: "0 < j \<and> j \<le> length rs"
    then obtain r rs' j' where e: "rs = r # rs'" "j = Suc j'" by (cases rs; cases j) auto
    from Nil [rule_format, of j] j have "value_at n (take j rs) = None" by simp
    with e show "value_at ?m (take j rs) = None" by (simp add: value_at_Cons)
  qed
  from lres_value_here [OF this, of v b] show ?case by simp
next
  case (Cons c cs)
  let ?ch0 = "case map_of (children n) c of Some ch \<Rightarrow> ch
               | None \<Rightarrow> Node c (take (step_len cur c) orig) None []"
  have "\<forall>j. 0 < j \<and> j \<le> length rs \<longrightarrow> value_at ?ch0 (cs @ take j rs) = None"
  proof (cases "map_of (children n) c")
    case None
    then show ?thesis by simp
  next
    case (Some ch)
    with Cons.prems show ?thesis by (simp add: value_at_Cons)
  qed
  from Cons.IH [OF this] show ?case by (simp add: update_conv')
qed

lemma lres_set_cs_keep:
  "\<exists>j. 0 < j \<and> j \<le> length rs \<and> value_at n (cs @ take j rs) \<noteq> None \<Longrightarrow>
   lres (set_cs orig cur cs v n) (cs @ rs) b = lres n (cs @ rs) b"
proof (induction cs arbitrary: n cur b)
  case Nil
  then obtain j where j: "0 < j" "j \<le> length rs" "value_at n (take j rs) \<noteq> None" by auto
  then obtain r rs' j' where rs: "rs = r # rs'" and j': "j = Suc j'" by (cases rs; cases j) auto
  with j obtain ch where ch: "map_of (children n) r = Some ch" "value_at ch (take j' rs') \<noteq> None"
    by (auto simp: value_at_Cons split: option.splits)
  from j rs j' have "j' \<le> length rs'" by simp
  with ch(2) have "\<exists>j\<le>length rs'. value_at ch (take j rs') \<noteq> None" by blast
  from lres_value_below [OF this] ch(1) show ?case by (simp add: rs)
next
  case (Cons c cs)
  then obtain j where j: "0 < j" "j \<le> length rs" "value_at n (c # cs @ take j rs) \<noteq> None"
    by auto
  then obtain ch where ch: "map_of (children n) c = Some ch"
    "value_at ch (cs @ take j rs) \<noteq> None"
    by (auto simp: value_at_Cons split: option.splits)
  with j have "\<exists>j. 0 < j \<and> j \<le> length rs \<and> value_at ch (cs @ take j rs) \<noteq> None" by blast
  from Cons.IH [OF this] ch(1) show ?case
    by (simp add: update_conv' cong: option.case_cong)
qed

lemma inherits_below:
  assumes "comps q = comps p @ rs"
  shows "inherits t p q \<longleftrightarrow>
    (\<forall>j. 0 < j \<and> j \<le> length rs \<longrightarrow> value_at (root t) (comps p @ take j rs) = None)"
proof
  assume i: "inherits t p q"
  show "\<forall>j. 0 < j \<and> j \<le> length rs \<longrightarrow> value_at (root t) (comps p @ take j rs) = None"
  proof (intro allI impI)
    fix j assume j: "0 < j \<and> j \<le> length rs"
    then have "length (comps p) + j \<in> set [Suc (length (comps p)) ..< Suc (length (comps q))]"
      by (auto simp: assms)
    with i have "value_at (root t) (take (length (comps p) + j) (comps q)) = None"
      unfolding inherits_def list_all_iff by blast
    then show "value_at (root t) (comps p @ take j rs) = None" by (simp add: assms)
  qed
next
  assume a: "\<forall>j. 0 < j \<and> j \<le> length rs \<longrightarrow> value_at (root t) (comps p @ take j rs) = None"
  have "value_at (root t) (take k (comps q)) = None"
    if "k \<in> set [Suc (length (comps p)) ..< Suc (length (comps q))]" for k
  proof -
    from that obtain j where j: "k = length (comps p) + j" "0 < j" "j \<le> length rs"
      by (auto simp: assms intro: that [of "k - length (comps p)"] dest: le_Suc_ex)
    with a show ?thesis by (simp add: assms)
  qed
  then show "inherits t p q" by (simp add: inherits_def list_all_iff assms)
qed

lemma comps_append_sep:
  "a \<noteq> [] \<Longrightarrow> last a \<noteq> CHR ''/'' \<Longrightarrow> comps (a @ CHR ''/'' # r) = comps a @ comps r"
proof (induction a rule: comps.induct)
  case (1 a)
  obtain h t where ht: "pathTakeFirst a = (h, t)" by (cases "pathTakeFirst a")
  from pathTakeFirst_cases [OF ht]
  have nos: "CHR ''/'' \<notin> set h" and shape: "(a = h \<and> t = []) \<or> a = h @ CHR ''/'' # t"
    by simp_all
  from shape show ?case
  proof
    assume e: "a = h \<and> t = []"
    with "1.prems" have "h \<noteq> []" by simp
    with e nos show ?thesis by (simp add: comps_sep comps_nosep)
  next
    assume e: "a = h @ CHR ''/'' # t"
    with "1.prems" have t: "t \<noteq> []" "last t \<noteq> CHR ''/''" by (auto split: if_splits)
    from "1.IH" [OF _ ht [symmetric] t] "1.prems"(1)
    have "comps (t @ CHR ''/'' # r) = comps t @ comps r" by simp
    moreover have "comps (a @ CHR ''/'' # r) = h # comps (t @ CHR ''/'' # r)"
      using comps_sep [OF nos, of "t @ CHR ''/'' # r"] e by simp
    moreover have "comps a = h # comps t" using comps_sep [OF nos, of t] e by simp
    ultimately show ?thesis by simp
  qed
qed

lemma clean_ancestor_comps:
  assumes "clean a" and "a = [] \<or> prefix (a @ ''/'') p"
  shows "prefix (comps a) (comps p)"
proof (cases "a = []")
  case True
  then show ?thesis by simp
next
  case False
  with assms(2) obtain r where r: "p = a @ CHR ''/'' # r" by (auto simp: prefix_def)
  from False assms(1) have "last a \<noteq> CHR ''/''" by (simp add: clean_def)
  from comps_append_sep [OF False this, of r] show ?thesis by (simp add: r)
qed

lemma lres_deepest:
  "get_cs n ds = Some m \<Longrightarrow> nvalue m = Some v \<Longrightarrow>
   (\<forall>j. 0 < j \<and> j \<le> length rs \<longrightarrow> value_at n (ds @ take j rs) = None) \<Longrightarrow>
   lres n (ds @ rs) b = Some (path m, v)"
proof (induction ds arbitrary: n b)
  case Nil
  then have "\<forall>j. 0 < j \<and> j \<le> length rs \<longrightarrow> value_at m (take j rs) = None" by simp
  from lres_value_here [OF this Nil(2)] Nil(1) show ?case by simp
next
  case (Cons d ds)
  from Cons.prems(1) obtain ch where ch: "map_of (children n) d = Some ch" "get_cs ch ds = Some m"
    by (auto split: option.splits)
  have "\<forall>j. 0 < j \<and> j \<le> length rs \<longrightarrow> value_at ch (ds @ take j rs) = None"
    using Cons.prems(3) ch(1) by (simp add: value_at_Cons)
  from Cons.IH [OF ch(2) Cons.prems(2) this] ch(1) show ?case by simp
qed

lemma Lookup_deepest:
  assumes "pinv (root t) []"
  shows "Lookup t p = Some (mp, v) \<longleftrightarrow>
    (\<exists>k\<le>length (comps p). mp = npath (take k (comps p)) \<and>
       value_at (root t) (take k (comps p)) = Some v \<and>
       (\<forall>j. k < j \<and> j \<le> length (comps p) \<longrightarrow>
          value_at (root t) (take j (comps p)) = None))"
proof -
  let ?cs = "comps p"
  have deep: "Lookup t p = Some (npath (take k ?cs), w)"
    if k: "k \<le> length ?cs" "value_at (root t) (take k ?cs) = Some w"
      "\<forall>j. k < j \<and> j \<le> length ?cs \<longrightarrow> value_at (root t) (take j ?cs) = None" for k w
  proof -
    from k(2) obtain m where m: "get_cs (root t) (take k ?cs) = Some m" "nvalue m = Some w"
      by (auto simp: value_at_def split: option.splits)
    have "\<forall>j. 0 < j \<and> j \<le> length (drop k ?cs) \<longrightarrow>
            value_at (root t) (take k ?cs @ take j (drop k ?cs)) = None"
    proof (intro allI impI)
      fix j assume j: "0 < j \<and> j \<le> length (drop k ?cs)"
      have "take k ?cs @ take j (drop k ?cs) = take (k + j) ?cs" by (simp add: take_add)
      moreover from j k(1) have "k < k + j \<and> k + j \<le> length ?cs" by auto
      ultimately show "value_at (root t) (take k ?cs @ take j (drop k ?cs)) = None"
        using k(3) by simp
    qed
    from lres_deepest [OF m this, of None] pinvD [OF assms m(1)]
    show ?thesis by (simp add: Lookup_lres)
  qed
  show ?thesis
  proof
    assume l: "Lookup t p = Some (mp, v)"
    let ?K = "{j. j \<le> length ?cs \<and> value_at (root t) (take j ?cs) \<noteq> None}"
    have "?K \<noteq> {}"
    proof
      assume "?K = {}"
      then have "\<forall>j\<le>length ?cs. value_at (root t) (take j ?cs) = None" by blast
      from lres_no_value [OF this, of None] l show False by (simp add: Lookup_lres)
    qed
    moreover have fin: "finite ?K" by simp
    ultimately have mx: "Max ?K \<in> ?K" by (rule Max_in [rotated])
    then obtain w where w: "value_at (root t) (take (Max ?K) ?cs) = Some w" by auto
    have top: "\<forall>j. Max ?K < j \<and> j \<le> length ?cs \<longrightarrow> value_at (root t) (take j ?cs) = None"
    proof (intro allI impI, rule ccontr)
      fix j assume j: "Max ?K < j \<and> j \<le> length ?cs"
        and "value_at (root t) (take j ?cs) \<noteq> None"
      then have "j \<in> ?K" by simp
      with fin have "j \<le> Max ?K" by (rule Max_ge)
      with j show False by simp
    qed
    from mx have le: "Max ?K \<le> length ?cs" by simp
    from deep [OF le w top] l have "mp = npath (take (Max ?K) ?cs)" "v = w" by simp_all
    with le w top show "\<exists>k\<le>length ?cs. mp = npath (take k ?cs) \<and>
       value_at (root t) (take k ?cs) = Some v \<and>
       (\<forall>j. k < j \<and> j \<le> length ?cs \<longrightarrow> value_at (root t) (take j ?cs) = None)"
      by blast
  next
    assume "\<exists>k\<le>length ?cs. mp = npath (take k ?cs) \<and>
       value_at (root t) (take k ?cs) = Some v \<and>
       (\<forall>j. k < j \<and> j \<le> length ?cs \<longrightarrow> value_at (root t) (take j ?cs) = None)"
    then obtain k where "k \<le> length ?cs" "mp = npath (take k ?cs)"
      "value_at (root t) (take k ?cs) = Some v"
      "\<forall>j. k < j \<and> j \<le> length ?cs \<longrightarrow> value_at (root t) (take j ?cs) = None" by blast
    with deep [of k v] show "Lookup t p = Some (mp, v)" by simp
  qed
qed

lemma Lookup_some_valued:
  assumes "pinv (root t) []" and "k \<le> length (comps p)"
    and "value_at (root t) (take k (comps p)) \<noteq> None"
  shows "Lookup t p \<noteq> None"
proof
  assume "Lookup t p = None"
  then have "lres (root t) (comps p) None = None" by (simp add: Lookup_lres)
  have "\<exists>j\<le>length (comps p). value_at (root t) (take j (comps p)) \<noteq> None"
    using assms(2,3) by blast
  from lres_value_below [OF this, of None "Some ([], undefined)"]
  have e: "lres (root t) (comps p) (Some ([], undefined)) = None"
    using \<open>lres (root t) (comps p) None = None\<close> by simp
  have "lres n cs (Some x) \<noteq> None" for n :: "'a pathTreeNode" and cs x
    by (induction cs arbitrary: n x) (auto split: option.splits)
  with e show False by blast
qed

lemma items_from_key:
  "items_from m ops a = Some v \<Longrightarrow> m a = Some v \<or> a \<in> fst ` set ops"
proof (induction ops arbitrary: m)
  case Nil
  then show ?case by (simp add: items_from_def)
next
  case (Cons op ops)
  obtain k w where op: "op = (k, w)" by (cases op)
  from Cons.prems have "items_from (m(k \<mapsto> w)) ops a = Some v" by (simp add: op items_from_Cons)
  from Cons.IH [OF this] show ?case by (auto simp: op split: if_splits)
qed

lemma items_of_key: "items_of ops a = Some v \<Longrightarrow> a \<in> fst ` set ops"
  unfolding items_of_def by (drule items_from_key) simp















lemma pick_single: "pick ks [x] = [x]"
  by (cases ks) simp_all

lemma root_and_empty_child_any_order:
  "ListByPath_after sched [([], 1::int), (''/'', 2)] [] [] = Inr (Some 2)"
proof -
  let ?c = "Node [] [] (Some (2::int)) []"
  let ?r = "Node [] [] (Some (1::int)) [([], ?c)]"
  have b: "build [([], 1::int), (''/'', 2)] = Inr \<lparr>root = ?r, countHint = 2\<rparr>"
    by code_simp
  have "listByPath_loop sched [?r] Map.empty [] = Some 2"
    using listByPath_loop_snoc [of sched "[]" ?r Map.empty]
      listByPath_loop_snoc [of "tl sched" "[]" ?c "[[] \<mapsto> 1]"]
    by (simp add: pick_single listByPath_loop_Nil)
  then show ?thesis by (simp add: ListByPath_after_def b ListByPath_def listByPath_def)
qed

section \<open>The claims\<close>

text \<open>
  C9. For every tree built by a finite sequence of \<open>Set\<close> calls (the build itself never
  panics) and every query \<open>p\<close>: if \<open>Lookup\<close> returns \<open>(m, v, true)\<close> then \<open>m\<close> is a
  string prefix of \<open>p\<close>, so it is no longer than \<open>p\<close>.
\<close>

theorem C9_matched_path_prefix: "\<exists>t. build ops = Inr t \<and>
   (\<forall>m v. Lookup t p = Some (m, v) \<longrightarrow> prefix m p \<and> length m \<le> length p)"
proof -
  from build_pinv [of ops] obtain t where t: "build ops = Inr t" "pinv (root t) []" by blast
  have "prefix m p \<and> length m \<le> length p" if "Lookup t p = Some (m, v)" for m v
  proof -
    from Lookup_found [OF t(2) that] obtain k where
      k: "m = npath (take k (comps p))" by blast
    have "prefix (join (take k (comps p))) p"
      by (rule prefix_join_comps) (rule take_is_prefix)
    with npath_prefix [of "take k (comps p)"] have "prefix m p"
      unfolding k by (rule prefix_order.trans)
    then show ?thesis by (simp add: prefix_length_le)
  qed
  with t(1) show ?thesis by blast
qed

theorem C9_witness:
  "Lookup_after [(''foo'', 10::int), (''foo/bar'', 20)] ''foo/bar/baz'' = Inr (Some (''foo/bar'', 20))
   \<and> prefix ''foo/bar'' ''foo/bar/baz'' \<and> length ''foo/bar'' \<le> length ''foo/bar/baz''"
proof -
  let ?ops = "[(''foo'', 10::int), (''foo/bar'', 20)]"
  have l: "Lookup_after ?ops ''foo/bar/baz'' = Inr (Some (''foo/bar'', 20))"
    by code_simp
  from C9_matched_path_prefix [of ?ops "''foo/bar/baz''"]
  obtain t where t: "build ?ops = Inr t"
    and h: "\<forall>m v. Lookup t ''foo/bar/baz'' = Some (m, v) \<longrightarrow>
              prefix m ''foo/bar/baz'' \<and> length m \<le> length ''foo/bar/baz''"
    by blast
  from l t have "Lookup t ''foo/bar/baz'' = Some (''foo/bar'', 20)"
    by (simp add: Lookup_after_def)
  with h have "prefix ''foo/bar'' ''foo/bar/baz'' \<and> length ''foo/bar'' \<le> length ''foo/bar/baz''"
    by blast
  with l show ?thesis by blast
qed

text \<open>
  C1. For every tree (so for every tree built by \<open>Set\<close> calls) and every path,
  \<open>lookup\<close> returns the best match of the walk from the root along the components of
  the path: every visited node with a value, the root and the last node reached included,
  overwrites the match recorded before, so the deepest one wins (it is the last visited
  node with a value); the walk stops where a component has no child and keeps its best
  match. \<open>Lookup\<close> returns that node's path and value, and not found when no visited
  node has a value.
\<close>

theorem C1_lookup_deepest_on_walk:
  "lookup (root t) p = best_match (walk (root t) (comps p)) \<and>
   Lookup t p =
     (case best_match (walk (root t) (comps p)) of
        None \<Rightarrow> None
      | Some m \<Rightarrow> (case nvalue m of None \<Rightarrow> None | Some v \<Rightarrow> Some (path m, v))) \<and>
   best_match ns =
     (case filter (\<lambda>m. nvalue m \<noteq> None) ns of
        [] \<Rightarrow> None
      | x # xs \<Rightarrow> Some (last (x # xs)))"
proof -
  have a: "lookup (root t) p = best_match (walk (root t) (comps p))"
    by (simp add: lookup_def lookup_loop_cs lookup_cs_walk best_match_def)
  have b: "best_match ns =
     (case filter (\<lambda>m. nvalue m \<noteq> None) ns of
        [] \<Rightarrow> None
      | x # xs \<Rightarrow> Some (last (x # xs)))"
    unfolding best_match_def by (rule foldl_record_best)
  show ?thesis using a b by (simp add: Lookup_def)
qed



text \<open>
  C7. On the zero-value tree \<open>Lookup\<close> finds nothing for any path, the empty one
  included, and \<open>ListByPath\<close> of the empty path is the empty map, whatever the order of
  the map iterations. No operation fails:
  \<open>Set\<close> is the only one with a panic in its code (the slice bound), and it never
  panics, on any tree and any path; so every sequence of \<open>Set\<close> calls runs to its end.
  \<open>Lookup\<close> and \<open>ListByPath\<close> have no error result at all.
\<close>

theorem C7_absence_is_no_fault:
  "Lookup zeroTree p = None \<and> ListByPath sched zeroTree [] = Map.empty \<and>
   (\<exists>t'. Set p v t = Inr t') \<and> (\<exists>t'. build ops = Inr t')"
proof -
  have "Lookup zeroTree p = None"
    by (simp add: Lookup_lres zeroTree_def lres_zeroNode)
  moreover have "ListByPath sched (zeroTree :: 'b pathTree) [] = Map.empty"
    using listByPath_loop_snoc [of sched "[]" "zeroNode :: 'b pathTreeNode" Map.empty]
    by (simp add: ListByPath_def listByPath_def zeroTree_def zeroNode_def listByPath_loop_Nil)
  moreover have "\<exists>t'. build ops = Inr t'" using build_pinv [of ops] by blast
  ultimately show ?thesis using Set_total [of p v t] by blast
qed



text \<open>
  C8. Every operation is total. \<open>Set\<close> returns a tree (it never panics), and so does
  every finite sequence of \<open>Set\<close> calls; \<open>Lookup\<close> and \<open>ListByPath\<close> return a
  result on every tree and every string. The functions of the model are total because
  their iterations end: every step of a component-consuming iteration leaves a strictly
  shorter rest of the path, so a path has at most as many components as bytes, and every
  step of the traversal of \<open>listByPath\<close>, in whatever order it pushes the children,
  strictly lowers the number of nodes below the stack.
\<close>

theorem C8_operations_total:
  "(\<exists>t'. Set p v t = Inr t') \<and> (\<exists>t'. build ops = Inr t') \<and>
   (\<exists>r. Lookup t q = r) \<and> (\<exists>items. ListByPath sched t q = items) \<and>
   (q \<noteq> [] \<longrightarrow> length (snd (pathTakeFirst q)) < length q) \<and>
   length (comps q) \<le> length q \<and>
   (next \<noteq> [] \<longrightarrow>
      stack_nodes (butlast next @ map snd (pick ks (children (last next)))) < stack_nodes next)"
proof -
  have "q \<noteq> [] \<longrightarrow> length (snd (pathTakeFirst q)) < length q"
    using pathTakeFirst_shrinks [of q "fst (pathTakeFirst q)" "snd (pathTakeFirst q)"] by simp
  moreover have "\<exists>t'. build ops = Inr t'" using build_pinv [of ops] by blast
  moreover note Set_total [of p v t] length_comps [of q] stack_nodes_pop [of "next" ks]
  ultimately show ?thesis by blast
qed

theorem C8_witness:
  "Set ''a/b'' (1::int) zeroTree =
     Inr \<lparr>root = Node [] [] None [(''a'', Node ''a'' ''a'' None [(''b'', Node ''b'' ''a/b'' (Some 1) [])])],
          countHint = 1\<rparr> \<and>
   length (snd (pathTakeFirst ''a/b'')) < length ''a/b'' \<and>
   stack_nodes (butlast [Node [] [] None [(''a'', Node ''a'' ''a'' (Some (1::int)) [])]]
                @ map snd (pick [0] (children (last [Node [] [] None [(''a'', Node ''a'' ''a'' (Some 1) [])]]))))
     < stack_nodes [Node [] [] None [(''a'', Node ''a'' ''a'' (Some (1::int)) [])]]"
proof -
  have s: "Set ''a/b'' (1::int) zeroTree =
     Inr \<lparr>root = Node [] [] None [(''a'', Node ''a'' ''a'' None [(''b'', Node ''b'' ''a/b'' (Some 1) [])])],
          countHint = 1\<rparr>"
    by code_simp
  have ne: "''a/b'' \<noteq> []" by simp
  have ne2: "[Node [] [] None [(''a'', Node ''a'' ''a'' (Some (1::int)) [])]] \<noteq> []" by simp
  from C8_operations_total [where p = "''a/b''" and v = "1::int" and t = zeroTree
      and ops = "[]" and q = "''a/b''" and sched = "[]" and ks = "[0]"
      and ?next = "[Node [] [] None [(''a'', Node ''a'' ''a'' (Some (1::int)) [])]]"] ne ne2 s
  show ?thesis by blast
qed




text \<open>
  C3. The claim: in every tree built by \<open>Set\<close> calls, the path of a node is the path of
  its parent, a separator and its name (its name alone below the root). The code misses
  it after a leading separator: \<open>Set "/foo"\<close> makes the node named \<open>""\<close> below the root,
  with the path \<open>""\<close>, and below it the node named \<open>foo\<close> with the path \<open>"/fo"\<close>, not
  \<open>"/foo"\<close>; \<open>curPathLen\<close> is still \<open>0\<close> after the empty first component, and the code
  takes that for "no component before this one". \<open>Lookup "/foo"\<close> then reports the
  matched path \<open>"/fo"\<close>.
\<close>

theorem C3_path_after_leading_separator:
  "get_after [(''/foo'', 1::int)] ''/'' =
     Inr (Some (Node [] [] None [(''foo'', Node ''foo'' ''/fo'' (Some 1) [])])) \<and>
   get_after [(''/foo'', 1::int)] ''/foo'' = Inr (Some (Node ''foo'' ''/fo'' (Some 1) [])) \<and>
   Lookup_after [(''/foo'', 1::int)] ''/foo'' = Inr (Some (''/fo'', 1))"
  by code_simp

text \<open>
  C6. The claim, as stated, fails where it says that every other path's \<open>Lookup\<close> result
  is unchanged: values are inherited, so after \<open>foo\<close> is assigned again the result for
  \<open>foo/bar\<close> changes with it.
\<close>

theorem C6_counterexample:
  "Lookup_after [(''foo'', 1::int)] ''foo/bar'' = Inr (Some (''foo'', 1)) \<and>
   Lookup_after [(''foo'', 1::int), (''foo'', 2)] ''foo/bar'' = Inr (Some (''foo'', 2))"
  by code_simp

text \<open>
  C6, amended. On every tree, \<open>Set p v\<close> returns a tree in which the explicit value at the
  node of \<open>p\<close> is \<open>v\<close>, so that \<open>Lookup p\<close> then returns \<open>v\<close> (the last write wins); the
  explicit value at every other component list, above, below or beside, is what it was;
  when there was a node at \<open>p\<close> already, the shape of the tree is what it was; and
  \<open>Lookup q\<close> is what it was for every path \<open>q\<close>, except for the paths at or below \<open>p\<close>
  with no value at a node strictly below \<open>p\<close> on their way: those inherit from \<open>p\<close> and
  return what \<open>Lookup p\<close> returns, the new value.
\<close>

theorem C6_set_frame:
  "\<exists>t'. Set p v t = Inr t' \<and>
     (\<exists>m. Lookup t' p = Some (m, v)) \<and>
     value_at (root t') (comps p) = Some v \<and>
     (\<forall>ds. ds \<noteq> comps p \<longrightarrow> value_at (root t') ds = value_at (root t) ds) \<and>
     (\<forall>q. \<not> inherits t p q \<longrightarrow> Lookup t' q = Lookup t q) \<and>
     (\<forall>q. inherits t p q \<longrightarrow> Lookup t' q = Lookup t' p) \<and>
     (get (root t) p \<noteq> None \<longrightarrow> shape (root t') = shape (root t))"
proof -
  let ?r = "set_cs p 0 (comps p) v (root t)"
  let ?t' = "\<lparr> root = ?r, countHint = countHint t + 1 \<rparr>"
  have s: "Set p v t = Inr ?t'" by (rule Set_cs)
  have a: "\<exists>m. Lookup ?t' p = Some (m, v)"
    using lres_set_cs_same [of p 0 "comps p" v "root t" None] by (simp add: Lookup_lres)
  have b: "value_at (root ?t') (comps p) = Some v" by (simp add: value_at_set_cs)
  have c: "\<forall>ds. ds \<noteq> comps p \<longrightarrow> value_at (root ?t') ds = value_at (root t) ds"
    by (simp add: value_at_set_cs)
  have d: "\<forall>q. \<not> inherits t p q \<longrightarrow> Lookup ?t' q = Lookup t q"
  proof (intro allI impI)
    fix q assume ni: "\<not> inherits t p q"
    show "Lookup ?t' q = Lookup t q"
    proof (cases "prefix (comps p) (comps q)")
      case False
      then show ?thesis by (simp add: Lookup_lres lres_set_cs_frame)
    next
      case True
      then obtain rs where rs: "comps q = comps p @ rs" by (auto simp: prefix_def)
      from ni inherits_below [OF rs, of t]
      have "\<exists>j. 0 < j \<and> j \<le> length rs \<and> value_at (root t) (comps p @ take j rs) \<noteq> None"
        by blast
      from lres_set_cs_keep [OF this] show ?thesis by (simp add: Lookup_lres rs)
    qed
  qed
  have e: "\<forall>q. inherits t p q \<longrightarrow> Lookup ?t' q = Lookup ?t' p"
  proof (intro allI impI)
    fix q assume i: "inherits t p q"
    then obtain rs where rs: "comps q = comps p @ rs" by (auto simp: inherits_def prefix_def)
    from i inherits_below [OF rs, of t]
    have "\<forall>j. 0 < j \<and> j \<le> length rs \<longrightarrow> value_at (root t) (comps p @ take j rs) = None"
      by blast
    from lres_set_cs_inherit [OF this] show "Lookup ?t' q = Lookup ?t' p"
      by (simp add: Lookup_lres rs)
  qed
  have f: "get (root t) p \<noteq> None \<longrightarrow> shape (root ?t') = shape (root t)"
    by (simp add: get_def get_loop_cs shape_set_cs)
  show ?thesis by (intro exI [of _ ?t'] conjI s a b c d e f)
qed

theorem C6_witness:
  "Set ''foo'' (2::int)
     \<lparr>root = Node [] [] None
        [(''foo'', Node ''foo'' ''foo'' (Some 1) [(''bar'', Node ''bar'' ''foo/bar'' (Some 20) [])]),
         (''bar'', Node ''bar'' ''bar'' (Some 3) [])], countHint = 3\<rparr>
   = Inr \<lparr>root = Node [] [] None
        [(''foo'', Node ''foo'' ''foo'' (Some 2) [(''bar'', Node ''bar'' ''foo/bar'' (Some 20) [])]),
         (''bar'', Node ''bar'' ''bar'' (Some 3) [])], countHint = 4\<rparr> \<and>
   value_at (Node [] [] None
        [(''foo'', Node ''foo'' ''foo'' (Some (2::int)) [(''bar'', Node ''bar'' ''foo/bar'' (Some 20) [])]),
         (''bar'', Node ''bar'' ''bar'' (Some 3) [])]) [''foo'', ''bar''] = Some 20 \<and>
   Lookup \<lparr>root = Node [] [] None
        [(''foo'', Node ''foo'' ''foo'' (Some (2::int)) [(''bar'', Node ''bar'' ''foo/bar'' (Some 20) [])]),
         (''bar'', Node ''bar'' ''bar'' (Some 3) [])], countHint = 4\<rparr> ''bar/baz''
     = Some (''bar'', 3) \<and>
   Lookup \<lparr>root = Node [] [] None
        [(''foo'', Node ''foo'' ''foo'' (Some (2::int)) [(''bar'', Node ''bar'' ''foo/bar'' (Some 20) [])]),
         (''bar'', Node ''bar'' ''bar'' (Some 3) [])], countHint = 4\<rparr> ''foo/bar/baz''
     = Some (''foo/bar'', 20) \<and>
   Lookup \<lparr>root = Node [] [] None
        [(''foo'', Node ''foo'' ''foo'' (Some (2::int)) [(''bar'', Node ''bar'' ''foo/bar'' (Some 20) [])]),
         (''bar'', Node ''bar'' ''bar'' (Some 3) [])], countHint = 4\<rparr> ''foo/x/y''
     = Some (''foo'', 2) \<and>
   shape (Node [] [] None
        [(''foo'', Node ''foo'' ''foo'' (Some (2::int)) [(''bar'', Node ''bar'' ''foo/bar'' (Some 20) [])]),
         (''bar'', Node ''bar'' ''bar'' (Some 3) [])])
   = shape (Node [] [] None
        [(''foo'', Node ''foo'' ''foo'' (Some (1::int)) [(''bar'', Node ''bar'' ''foo/bar'' (Some 20) [])]),
         (''bar'', Node ''bar'' ''bar'' (Some 3) [])])"
proof -
  let ?t = "\<lparr>root = Node [] [] None
        [(''foo'', Node ''foo'' ''foo'' (Some (1::int)) [(''bar'', Node ''bar'' ''foo/bar'' (Some 20) [])]),
         (''bar'', Node ''bar'' ''bar'' (Some 3) [])], countHint = 3\<rparr>"
  let ?t' = "\<lparr>root = Node [] [] None
        [(''foo'', Node ''foo'' ''foo'' (Some (2::int)) [(''bar'', Node ''bar'' ''foo/bar'' (Some 20) [])]),
         (''bar'', Node ''bar'' ''bar'' (Some 3) [])], countHint = 4\<rparr>"
  have s: "Set ''foo'' (2::int) ?t = Inr ?t'" by code_simp
  have h0: "[''foo'', ''bar''] \<noteq> comps ''foo''" by code_simp
  have h1: "\<not> inherits ?t ''foo'' ''bar/baz''" by code_simp
  have h2: "\<not> inherits ?t ''foo'' ''foo/bar/baz''" by code_simp
  have h3: "inherits ?t ''foo'' ''foo/x/y''" by code_simp
  have h4: "get (root ?t) ''foo'' \<noteq> None" by code_simp
  have v: "value_at (root ?t) [''foo'', ''bar''] = Some 20" by code_simp
  have l1: "Lookup ?t ''bar/baz'' = Some (''bar'', 3)" by code_simp
  have l2: "Lookup ?t ''foo/bar/baz'' = Some (''foo/bar'', 20)" by code_simp
  have l3: "Lookup ?t' ''foo'' = Some (''foo'', 2)" by code_simp
  from C6_set_frame [of "''foo''" "2::int" ?t] s
  have "(\<forall>ds. ds \<noteq> comps ''foo'' \<longrightarrow> value_at (root ?t') ds = value_at (root ?t) ds) \<and>
     (\<forall>q. \<not> inherits ?t ''foo'' q \<longrightarrow> Lookup ?t' q = Lookup ?t q) \<and>
     (\<forall>q. inherits ?t ''foo'' q \<longrightarrow> Lookup ?t' q = Lookup ?t' ''foo'') \<and>
     (get (root ?t) ''foo'' \<noteq> None \<longrightarrow> shape (root ?t') = shape (root ?t))"
    by simp
  with h0 h1 h2 h3 h4
  have "value_at (root ?t') [''foo'', ''bar''] = value_at (root ?t) [''foo'', ''bar''] \<and>
     Lookup ?t' ''bar/baz'' = Lookup ?t ''bar/baz'' \<and>
     Lookup ?t' ''foo/bar/baz'' = Lookup ?t ''foo/bar/baz'' \<and>
     Lookup ?t' ''foo/x/y'' = Lookup ?t' ''foo'' \<and>
     shape (root ?t') = shape (root ?t)"
    by blast
  with s v l1 l2 l3 show ?thesis by simp
qed

text \<open>
  C4. The claim, as stated, fails for a trailing separator: \<open>"foo/"\<close> is the path
  \<open>"foo"\<close>. \<open>pathTakeFirst "foo/"\<close> is \<open>("foo", "")\<close>, and the iteration of \<open>set\<close> stops
  on the empty rest, so \<open>Set "foo/"\<close> writes the node \<open>foo\<close> itself and makes no node
  named after an empty component.
\<close>

theorem C4_counterexample:
  "build [(''foo/'', 1::int)] =
     Inr \<lparr>root = Node [] [] None [(''foo'', Node ''foo'' ''foo'' (Some 1) [])], countHint = 1\<rparr> \<and>
   build [(''foo/'', 1::int)] = build [(''foo'', 1)] \<and>
   Lookup_after [(''foo/'', 1::int)] ''foo'' = Inr (Some (''foo'', 1))"
  by code_simp

text \<open>
  C4, amended. The components of a path are those of splitting it at every separator,
  left to right, empty ones kept, except that one trailing separator ends the path and
  adds no component (and the empty path has no component). \<open>Set\<close>, \<open>lookup\<close> and \<open>get\<close>
  (which \<open>ListByPath\<close> uses) go by these components and use each one, the empty string
  included, as a plain key of the children map; \<open>Set\<close> never fails, and after it the
  nodes on the way from the root are named after the components, one node for each. So
  \<open>"/foo"\<close> and \<open>"foo//bar"\<close> have a node named \<open>""\<close> on their way and are other paths
  than \<open>"foo"\<close> and \<open>"foo/bar"\<close>, and \<open>"foo/"\<close> is \<open>"foo"\<close>.
\<close>

theorem C4_components:
  "comps p = (if p = [] then [] else if last p = CHR ''/'' then butlast (split_sep p)
              else split_sep p) \<and>
   Set p v t = Inr \<lparr> root = set_cs p 0 (comps p) v (root t), countHint = countHint t + 1 \<rparr> \<and>
   lookup (root t) p = lookup_cs (root t) (comps p) None \<and>
   get (root t) p = get_cs (root t) (comps p) \<and>
   (\<exists>t'. build (ops @ [(p, v)]) = Inr t' \<and>
         map name (walk (root t') (comps p)) = [] # comps p \<and>
         value_at (root t') (comps p) = Some v) \<and>
   comps ''/foo'' = [[], ''foo''] \<and> comps ''foo//bar'' = [''foo'', [], ''bar''] \<and>
   comps ''foo/'' = [''foo''] \<and> comps ''foo'' = [''foo'']"
proof -
  have a: "comps p = (if p = [] then [] else if last p = CHR ''/'' then butlast (split_sep p)
              else split_sep p)" by (rule comps_split_sep)
  have b: "Set p v t = Inr \<lparr> root = set_cs p 0 (comps p) v (root t), countHint = countHint t + 1 \<rparr>"
    by (rule Set_cs)
  have c: "lookup (root t) p = lookup_cs (root t) (comps p) None"
    by (simp add: lookup_def lookup_loop_cs)
  have d: "get (root t) p = get_cs (root t) (comps p)" by (simp add: get_def get_loop_cs)
  have e: "\<exists>t'. build (ops @ [(p, v)]) = Inr t' \<and>
         map name (walk (root t') (comps p)) = [] # comps p \<and>
         value_at (root t') (comps p) = Some v"
  proof -
    from build_from_ninv [of zeroTree ops] ninv_zeroNode
    obtain t0 where t0: "build_from zeroTree ops = Inr t0" "ninv (root t0)"
      "name (root t0) = []"
      by (auto simp: zeroTree_def zeroNode_def)
    let ?t' = "\<lparr> root = set_cs p 0 (comps p) v (root t0), countHint = countHint t0 + 1 \<rparr>"
    have b: "build (ops @ [(p, v)]) = Inr ?t'"
      by (simp add: build_def build_from_append t0(1) Set_cs)
    have w: "map name (walk (root ?t') (comps p)) = [] # comps p"
      using walk_set_cs [OF t0(2), of p 0 "comps p" v] t0(3) by simp
    have x: "value_at (root ?t') (comps p) = Some v" by (simp add: value_at_set_cs)
    show ?thesis by (rule exI [of _ ?t']) (simp only: b w x simp_thms)
  qed
  have f: "comps ''/foo'' = [[], ''foo''] \<and> comps ''foo//bar'' = [''foo'', [], ''bar''] \<and>
   comps ''foo/'' = [''foo''] \<and> comps ''foo'' = [''foo'']" by code_simp
  from a b c d e f show ?thesis by (simp only: simp_thms)
qed

text \<open>
  C2. The claim, as stated for all sequences of \<open>Set\<close> calls, fails for a key with a
  trailing separator: after \<open>Set "foo/"\<close> the key \<open>"foo/"\<close> is an exact key, and
  \<open>Lookup "foo/"\<close> returns the matched path \<open>"foo"\<close>, not \<open>"foo/"\<close>. (It also fails for
  a key with a leading separator, by the defect shown under C3.)
\<close>

theorem C2_counterexample:
  "Lookup_after [(''foo/'', 1::int)] ''foo/'' = Inr (Some (''foo'', 1)) \<and> ''foo'' \<noteq> ''foo/''"
  by code_simp

text \<open>
  C2, amended. For all finite sequences of \<open>Set\<close> calls whose keys neither start nor end
  with a separator, and every path \<open>p\<close>: the build succeeds; if \<open>p\<close> is a key,
  \<open>Lookup p\<close> returns \<open>p\<close> and the value last assigned at \<open>p\<close>; if \<open>p\<close> is not a key,
  then \<open>Lookup p\<close> finds a match whenever some key is an ancestor of \<open>p\<close> (the empty key,
  or a key that \<open>p\<close> starts with, followed by a separator), and whenever it finds a match,
  the matched path is a key, returned with its last value, it is a strict prefix of \<open>p\<close>,
  it is empty (the root) or is followed by a separator in \<open>p\<close>, and no ancestor key of
  \<open>p\<close> is longer.
\<close>

theorem C2_lookup_exact_or_ancestor:
  assumes "\<forall>kv\<in>set ops. clean (fst kv)"
  shows "\<exists>t. build ops = Inr t \<and>
    (case items_of ops p of
       Some v \<Rightarrow> Lookup t p = Some (p, v)
     | None \<Rightarrow>
         ((\<exists>a. items_of ops a \<noteq> None \<and> (a = [] \<or> prefix (a @ ''/'') p)) \<longrightarrow>
            Lookup t p \<noteq> None) \<and>
         (\<forall>m v. Lookup t p = Some (m, v) \<longrightarrow>
            items_of ops m = Some v \<and> strict_prefix m p \<and>
            (m = [] \<or> p ! length m = CHR ''/'') \<and>
            (\<forall>a. items_of ops a \<noteq> None \<and> (a = [] \<or> prefix (a @ ''/'') p) \<longrightarrow>
               length a \<le> length m)))"
proof -
  from build_items [OF assms] obtain t where
    t: "build ops = Inr t" and pi: "pinv (root t) []"
    and it: "\<forall>q. clean q \<longrightarrow> value_at (root t) (comps q) = items_of ops q"
    and cl: "\<forall>ds v. value_at (root t) ds = Some v \<longrightarrow> (\<exists>q. clean q \<and> comps q = ds)"
    by blast
  let ?cs = "comps p"
  have key_clean: "clean a" if "items_of ops a \<noteq> None" for a
  proof -
    from that obtain w where "items_of ops a = Some w" by auto
    from items_of_key [OF this] assms show ?thesis by auto
  qed
  have anc: "length (comps a) \<le> length ?cs \<and> take (length (comps a)) ?cs = comps a \<and>
             value_at (root t) (comps a) \<noteq> None"
    if a: "items_of ops a \<noteq> None" "a = [] \<or> prefix (a @ ''/'') p" for a
  proof -
    from key_clean [OF a(1)] a(2) have "prefix (comps a) ?cs" by (rule clean_ancestor_comps)
    then obtain r where "?cs = comps a @ r" by (auto simp: prefix_def)
    moreover from it key_clean [OF a(1)] a(1) have "value_at (root t) (comps a) \<noteq> None" by simp
    ultimately show ?thesis by simp
  qed
  have "case items_of ops p of
       Some v \<Rightarrow> Lookup t p = Some (p, v)
     | None \<Rightarrow>
         ((\<exists>a. items_of ops a \<noteq> None \<and> (a = [] \<or> prefix (a @ ''/'') p)) \<longrightarrow>
            Lookup t p \<noteq> None) \<and>
         (\<forall>m v. Lookup t p = Some (m, v) \<longrightarrow>
            items_of ops m = Some v \<and> strict_prefix m p \<and>
            (m = [] \<or> p ! length m = CHR ''/'') \<and>
            (\<forall>a. items_of ops a \<noteq> None \<and> (a = [] \<or> prefix (a @ ''/'') p) \<longrightarrow>
               length a \<le> length m))"
  proof (cases "items_of ops p")
    case (Some v)
    then have cp: "clean p" using key_clean [of p] by simp
    with it Some have "value_at (root t) (comps p) = Some v" by simp
    then obtain n where n: "get_cs (root t) (comps p) = Some n" "nvalue n = Some v"
      by (auto simp: value_at_def split: option.splits)
    from pinvD [OF pi n(1)] have "path n = p" by (simp add: clean_npath [OF cp])
    with lres_exact [OF n, of None] have "Lookup t p = Some (p, v)" by (simp add: Lookup_lres)
    with Some show ?thesis by simp
  next
    case None
    have found: "Lookup t p \<noteq> None"
      if "\<exists>a. items_of ops a \<noteq> None \<and> (a = [] \<or> prefix (a @ ''/'') p)"
    proof -
      from that obtain a where a: "items_of ops a \<noteq> None" "a = [] \<or> prefix (a @ ''/'') p"
        by blast
      from anc [OF a] have "length (comps a) \<le> length ?cs"
        "value_at (root t) (take (length (comps a)) ?cs) \<noteq> None" by simp_all
      then show ?thesis by (rule Lookup_some_valued [OF pi])
    qed
    have match: "items_of ops m = Some v \<and> strict_prefix m p \<and>
            (m = [] \<or> p ! length m = CHR ''/'') \<and>
            (\<forall>a. items_of ops a \<noteq> None \<and> (a = [] \<or> prefix (a @ ''/'') p) \<longrightarrow>
               length a \<le> length m)"
      if l: "Lookup t p = Some (m, v)" for m v
    proof -
      from l Lookup_deepest [OF pi, of p m v] obtain k where k: "k \<le> length ?cs"
        "m = npath (take k ?cs)" "value_at (root t) (take k ?cs) = Some v"
        and top: "\<forall>j. k < j \<and> j \<le> length ?cs \<longrightarrow> value_at (root t) (take j ?cs) = None"
        by blast
      from cl k(3) obtain q where q: "clean q" "comps q = take k ?cs" by blast
      have mq: "m = q" using clean_npath [OF q(1)] k(2) q(2) by simp
      from it q(1) have "value_at (root t) (comps q) = items_of ops q" by blast
      with k(3) have iq: "items_of ops q = Some v" by (simp add: q(2))
      have mj: "m = join (take k ?cs)" using clean_join [OF q(1)] q(2) mq by simp
      have sp: "strict_prefix m p \<and> (m = [] \<or> p ! length m = CHR ''/'')"
      proof (cases "k = length ?cs")
        case True
        with mj have mj': "m = join ?cs" by simp
        from join_comps [of p] show ?thesis
        proof
          assume "join ?cs = p"
          with mj' mq iq None show ?thesis by simp
        next
          assume "join ?cs @ [CHR ''/''] = p"
          with mj' have "p = m @ [CHR ''/'']" by simp
          then show ?thesis by (metis nth_append_length prefixI strict_prefix_def
                append_self_conv list.distinct(1))
        qed
      next
        case False
        with k(1) have kl: "k < length ?cs" by simp
        show ?thesis
        proof (cases "k = 0")
          case True
          with mj have "m = []" by simp
          moreover from kl have "p \<noteq> []" by auto
          ultimately show ?thesis by (simp add: strict_prefix_def)
        next
          case k0: False
          with kl have "join ?cs = m @ CHR ''/'' # join (drop k ?cs)"
            unfolding mj by (intro join_take_boundary) simp_all
          with join_comps [of p] have "\<exists>r. p = m @ CHR ''/'' # r" by (metis append_Cons append_assoc)
          then obtain r where "p = m @ CHR ''/'' # r" by blast
          then show ?thesis by (metis nth_append_length prefixI strict_prefix_def
                append_self_conv list.distinct(1))
        qed
      qed
      have near: "length a \<le> length m"
        if a: "items_of ops a \<noteq> None \<and> (a = [] \<or> prefix (a @ ''/'') p)" for a
      proof -
        let ?j = "length (comps a)"
        from a anc [of a] have j: "?j \<le> length ?cs" "take ?j ?cs = comps a"
          "value_at (root t) (comps a) \<noteq> None" by simp_all
        have "?j \<le> k"
        proof (rule ccontr)
          assume "\<not> ?j \<le> k"
          with j(1) top have "value_at (root t) (take ?j ?cs) = None" by simp
          with j(2,3) show False by simp
        qed
        then have "take ?j ?cs = take ?j (take k ?cs)" by (simp add: min_def)
        then have "prefix (take ?j ?cs) (take k ?cs)" by (metis take_is_prefix)
        then have "prefix (join (comps a)) (join (take k ?cs))"
          unfolding j(2) by (rule prefix_join)
        moreover from a key_clean [of a] have "join (comps a) = a" by (simp add: clean_join)
        ultimately show ?thesis unfolding mj by (simp add: prefix_length_le)
      qed
      from iq mq sp near show ?thesis by blast
    qed
    from found match None show ?thesis by simp
  qed
  with t show ?thesis by blast
qed

theorem C2_witness:
  "clean ''foo'' \<and> clean ''bar'' \<and> clean ''foo/bar'' \<and>
   Lookup_after [(''foo'', 10::int), (''foo/bar'', 20), (''bar'', 30)] ''foo/bar''
     = Inr (Some (''foo/bar'', 20)) \<and>
   Lookup_after [(''foo'', 10::int), (''foo/bar'', 20), (''bar'', 30)] ''foo/bar/baz/''
     = Inr (Some (''foo/bar'', 20)) \<and>
   strict_prefix ''foo/bar'' ''foo/bar/baz/'' \<and> ''foo/bar/baz/'' ! length ''foo/bar'' = CHR ''/'' \<and>
   length ''foo'' \<le> length ''foo/bar''"
proof -
  let ?ops = "[(''foo'', 10::int), (''foo/bar'', 20), (''bar'', 30)]"
  let ?q = "''foo/bar/baz/''"
  have h1: "\<forall>kv\<in>set ?ops. clean (fst kv)" by (simp add: clean_def)
  have h4: "clean ''foo'' \<and> clean ''bar'' \<and> clean ''foo/bar''" by (simp add: clean_def)
  have i2: "items_of ?ops ''foo/bar'' = Some 20" by (simp add: items_of_def items_from_def)
  have i3: "items_of ?ops ?q = None" by (simp add: items_of_def items_from_def)
  have a: "items_of ?ops ''foo'' \<noteq> None \<and> (''foo'' = [] \<or> prefix (''foo'' @ ''/'') ?q)"
    by (simp add: items_of_def items_from_def)
  from C2_lookup_exact_or_ancestor [OF h1, of "''foo/bar''"] i2
  have e: "Lookup_after ?ops ''foo/bar'' = Inr (Some (''foo/bar'', 20))"
    by (auto simp: Lookup_after_def)
  from C2_lookup_exact_or_ancestor [OF h1, of ?q] obtain t where t: "build ?ops = Inr t"
    and f: "(\<exists>a. items_of ?ops a \<noteq> None \<and> (a = [] \<or> prefix (a @ ''/'') ?q)) \<longrightarrow>
            Lookup t ?q \<noteq> None"
    and g: "\<forall>m v. Lookup t ?q = Some (m, v) \<longrightarrow>
            items_of ?ops m = Some v \<and> strict_prefix m ?q \<and>
            (m = [] \<or> ?q ! length m = CHR ''/'') \<and>
            (\<forall>a. items_of ?ops a \<noteq> None \<and> (a = [] \<or> prefix (a @ ''/'') ?q) \<longrightarrow>
               length a \<le> length m)"
    unfolding i3 by auto
  have l: "Lookup_after ?ops ?q = Inr (Some (''foo/bar'', 20))" by code_simp
  with t have lt: "Lookup t ?q = Some (''foo/bar'', 20)" by (simp add: Lookup_after_def)
  with g a have "strict_prefix ''foo/bar'' ?q \<and> (''foo/bar'' = [] \<or> ?q ! length ''foo/bar'' = CHR ''/'')
      \<and> length ''foo'' \<le> length ''foo/bar''"
    by blast
  with h4 e l show ?thesis by simp
qed

text \<open>
  C5. The claim, as stated, fails where two nodes with values have the same path field:
  the map has one entry for the path. The root and its child named \<open>""\<close> (the node of
  the key \<open>"/"\<close>) both have the path \<open>""\<close>; with the value 1 at the root and 2 at that
  child, \<open>ListByPath ""\<close> maps \<open>""\<close> to 2 and the root's value is not in the result.
  The order of the map iterations changes nothing here, the root is taken from the stack
  before its child (\<open>root_and_empty_child_any_order\<close>); the theorem runs the call with
  the empty schedule.
\<close>

theorem C5_counterexample:
  "get_after [([], 1::int), (''/'', 2)] [] =
     Inr (Some (Node [] [] (Some 1) [([], Node [] [] (Some 2) [])])) \<and>
   ListByPath_after [] [([], 1::int), (''/'', 2)] [] [] = Inr (Some 2)"
  by code_simp

text \<open>
  C5, amended. For every tree and path \<open>p\<close>, and whatever the order of the map
  iterations, \<open>ListByPath p\<close> takes the node exactly at the components of \<open>p\<close> (the
  root for the empty path; no fallback to an ancestor). If
  there is none, the result is empty. Otherwise the keys of the result are exactly the
  paths of the nodes of that subtree that have a value (nodes without one add nothing),
  and every entry is the value of such a node with that path; and when two such nodes
  with the same path always have the same value, in particular when their paths are
  all different, the result maps the path of every node with a value to that value.
\<close>

theorem C5_list_subtree:
  "(p = [] \<longrightarrow> get_cs (root t) (comps p) = Some (root t)) \<and>
   (case get_cs (root t) (comps p) of
      None \<Rightarrow> ListByPath sched t p = Map.empty
    | Some n \<Rightarrow>
        dom (ListByPath sched t p) = {path m |m. m \<in> set (nodes_of n) \<and> nvalue m \<noteq> None} \<and>
        (\<forall>k v. ListByPath sched t p k = Some v \<longrightarrow>
           (\<exists>m\<in>set (nodes_of n). path m = k \<and> nvalue m = Some v)) \<and>
        ((\<forall>m\<in>set (nodes_of n). \<forall>m'\<in>set (nodes_of n).
            path m = path m' \<longrightarrow> nvalue m \<noteq> None \<longrightarrow> nvalue m' \<noteq> None \<longrightarrow>
            nvalue m = nvalue m') \<longrightarrow>
         (\<forall>m\<in>set (nodes_of n). nvalue m \<noteq> None \<longrightarrow> ListByPath sched t p (path m) = nvalue m)))"
proof -
  have a: "p = [] \<longrightarrow> get_cs (root t) (comps p) = Some (root t)" by simp
  have b: "case get_cs (root t) (comps p) of
      None \<Rightarrow> ListByPath sched t p = Map.empty
    | Some n \<Rightarrow>
        dom (ListByPath sched t p) = {path m |m. m \<in> set (nodes_of n) \<and> nvalue m \<noteq> None} \<and>
        (\<forall>k v. ListByPath sched t p k = Some v \<longrightarrow>
           (\<exists>m\<in>set (nodes_of n). path m = k \<and> nvalue m = Some v)) \<and>
        ((\<forall>m\<in>set (nodes_of n). \<forall>m'\<in>set (nodes_of n).
            path m = path m' \<longrightarrow> nvalue m \<noteq> None \<longrightarrow> nvalue m' \<noteq> None \<longrightarrow>
            nvalue m = nvalue m') \<longrightarrow>
         (\<forall>m\<in>set (nodes_of n). nvalue m \<noteq> None \<longrightarrow> ListByPath sched t p (path m) = nvalue m))"
  proof (cases "get_cs (root t) (comps p)")
    case None
    then show ?thesis by (simp add: ListByPath_get_cs)
  next
    case (Some n)
    have l: "ListByPath sched t p = listByPath sched n Map.empty" by (simp add: ListByPath_get_cs Some)
    have d: "dom (ListByPath sched t p) = {path m |m. m \<in> set (nodes_of n) \<and> nvalue m \<noteq> None}"
      unfolding l by (rule listByPath_dom)
    have s: "\<forall>k v. ListByPath sched t p k = Some v \<longrightarrow>
           (\<exists>m\<in>set (nodes_of n). path m = k \<and> nvalue m = Some v)"
      unfolding l by (blast dest: listByPath_sound)
    have e: "\<forall>m\<in>set (nodes_of n). nvalue m \<noteq> None \<longrightarrow> ListByPath sched t p (path m) = nvalue m"
      if u: "\<forall>m\<in>set (nodes_of n). \<forall>m'\<in>set (nodes_of n).
            path m = path m' \<longrightarrow> nvalue m \<noteq> None \<longrightarrow> nvalue m' \<noteq> None \<longrightarrow>
            nvalue m = nvalue m'"
    proof (intro ballI impI)
      fix m assume m: "m \<in> set (nodes_of n)" "nvalue m \<noteq> None"
      then have "path m \<in> dom (ListByPath sched t p)" unfolding d by blast
      then obtain v where v: "ListByPath sched t p (path m) = Some v" by auto
      with s obtain m' where m': "m' \<in> set (nodes_of n)" "path m' = path m" "nvalue m' = Some v"
        by blast
      with u m have "nvalue m = nvalue m'" by (metis option.distinct(1))
      with v m'(3) show "ListByPath sched t p (path m) = nvalue m" by simp
    qed
    from d s e show ?thesis by (simp only: Some option.case) blast
  qed
  from a b show ?thesis by (rule conjI)
qed


theorem C5_witness:
  "ListByPath [[1], [0]]
     \<lparr>root = Node [] [] None
        [(''foo'', Node ''foo'' ''foo'' (Some (10::int)) [(''bar'', Node ''bar'' ''foo/bar'' (Some 20) [])]),
         (''bar'', Node ''bar'' ''bar'' (Some 30) [])],
      countHint = 3\<rparr> ''foo'' ''foo'' = Some 10 \<and>
   ListByPath [[1], [0]]
     \<lparr>root = Node [] [] None
        [(''foo'', Node ''foo'' ''foo'' (Some (10::int)) [(''bar'', Node ''bar'' ''foo/bar'' (Some 20) [])]),
         (''bar'', Node ''bar'' ''bar'' (Some 30) [])],
      countHint = 3\<rparr> ''foo'' ''foo/bar'' = Some 20"
proof -
  let ?B = "Node ''bar'' ''foo/bar'' (Some (20::int)) []"
  let ?N = "Node ''foo'' ''foo'' (Some (10::int)) [(''bar'', ?B)]"
  let ?T = "\<lparr>root = Node [] [] None [(''foo'', ?N), (''bar'', Node ''bar'' ''bar'' (Some 30) [])],
            countHint = 3\<rparr>"
  have c: "comps ''foo'' = [''foo'']" by code_simp
  have g: "get_cs (root ?T) (comps ''foo'') = Some ?N" by (simp add: c)
  have ns: "nodes_of ?N = [?N, ?B]" by simp
  have u: "\<forall>m\<in>set (nodes_of ?N). \<forall>m'\<in>set (nodes_of ?N).
            path m = path m' \<longrightarrow> nvalue m \<noteq> None \<longrightarrow> nvalue m' \<noteq> None \<longrightarrow>
            nvalue m = nvalue m'"
    by (simp add: ns)
  from C5_list_subtree [where p = "''foo''" and t = ?T and sched = "[[1], [0]]"] g
  have "(\<forall>m\<in>set (nodes_of ?N). \<forall>m'\<in>set (nodes_of ?N).
            path m = path m' \<longrightarrow> nvalue m \<noteq> None \<longrightarrow> nvalue m' \<noteq> None \<longrightarrow>
            nvalue m = nvalue m') \<longrightarrow>
         (\<forall>m\<in>set (nodes_of ?N). nvalue m \<noteq> None \<longrightarrow> ListByPath [[1], [0]] ?T ''foo'' (path m) = nvalue m)"
    by (simp only: option.case) blast
  with u have "\<forall>m\<in>set (nodes_of ?N). nvalue m \<noteq> None \<longrightarrow> ListByPath [[1], [0]] ?T ''foo'' (path m) = nvalue m"
    by blast
  then show ?thesis by (simp add: ns)
qed

end
